theory Spec2Isabelle
  imports Main "HOL-Library.Signed_Division"
begin

section \<open>The OCI high-availability lock (physical/oci/oci_ha.go)\<close>

text \<open>
  The lock is a leader-election primitive over an object store with entity tags. This
  theory embeds the code of the functions of \<^verbatim>\<open>oci_ha.go\<close>, each as the sequential
  function that one goroutine runs. What the code
  asks of its surroundings (the clock, the UUID generator, the replies of the object
  store, the outcome of a \<^verbatim>\<open>select\<close>) is an explicit input of the embedded function, and
  what it does to its surroundings (remote requests, sleeps, closing the stop channel,
  starting goroutines) is recorded in a list of events, in program order.
\<close>

subsection \<open>Time\<close>

text \<open>
  A \<^verbatim>\<open>time.Duration\<close> is a signed 64-bit count of nanoseconds; an instant is counted
  in nanoseconds too. \<^verbatim>\<open>Time.Sub\<close> saturates at the least and the greatest duration.
\<close>

type_synonym duration = int
type_synonym time = int

definition Millisecond :: duration where
  "Millisecond = 1000000"

definition Second :: duration where
  "Second = 1000000000"

definition minDuration :: duration where
  "minDuration = - (2 ^ 63)"

definition maxDuration :: duration where
  "maxDuration = 2 ^ 63 - 1"

definition time_Sub :: "time \<Rightarrow> time \<Rightarrow> duration" where
  "time_Sub t u = (if t - u > maxDuration then maxDuration
                   else if t - u < minDuration then minDuration
                   else t - u)"

subsection \<open>Constants (lines 30-56)\<close>

definition LockRenewInterval :: duration where
  "LockRenewInterval = 3 * Second"

definition LockRetryInterval :: duration where
  "LockRetryInterval = 5 * Second"

definition LockWatchRetryInterval :: duration where
  "LockWatchRetryInterval = 2 * Second"

definition LockTTL :: duration where
  "LockTTL = 15 * Second"

definition LockWatchRetryMax :: int where
  "LockWatchRetryMax = 4"

definition LockCacheMinAcceptableAge :: duration where
  "LockCacheMinAcceptableAge = 45 * Second"

definition LockWriteRetriesOnFailures :: nat where
  "LockWriteRetriesOnFailures = 4"

subsection \<open>Data (lines 58-102)\<close>

record LockRecord =
  Key :: string
  Value :: string
  Identity :: string

record LockCache =
  etag :: string
  lastUpdate :: time
  lockRecord :: "LockRecord option"

text \<open>
  The fields of \<^verbatim>\<open>Lock\<close>. The atomic \<^verbatim>\<open>lockRecordCache\<close> holds nothing (\<open>None\<close>) or a
  pointer to a cache entry. The channel \<^verbatim>\<open>stopCh\<close> itself is not a field of the model:
  making and closing it are events. The field \<^verbatim>\<open>value\<close> is called \<open>val\<close>.
\<close>

record Lock =
  key :: string
  val :: string
  held :: bool
  identity :: string
  stopped :: bool
  lockRecordCache :: "LockCache option"
  renewInterval :: duration
  retryInterval :: duration
  ttl :: duration
  watchRetryInterval :: duration
  watchRetryMax :: int

subsection \<open>Requests, replies, events, errors\<close>

record PutObjectRequest =
  put_ObjectName :: string
  put_Body :: LockRecord
  put_IfMatch :: "string option"
  put_IfNoneMatch :: "string option"
  put_OpcClientRequestId :: string

record DeleteObjectRequest =
  del_ObjectName :: string
  del_IfMatch :: string
  del_OpcClientRequestId :: string

text \<open>
  What reading and decoding the body of a successful GET gives: \<^verbatim>\<open>ioutil.ReadAll\<close>
  fails, \<^verbatim>\<open>json.Unmarshal\<close> fails, or a record is decoded.
\<close>

datatype body = Unreadable | Undecodable | Decoded LockRecord

text \<open>
  A reply of the client. With an error, \<^verbatim>\<open>RawResponse\<close> is nil (\<open>None\<close>: the request
  got no HTTP response) or carries a status code. Without one, GET carries the body and
  the entity tag, PUT the new entity tag.
\<close>

datatype GetObjectReply = GetFailed "int option" | GetOK body string

datatype PutObjectReply = PutFailed "int option" | PutOK string

datatype DeleteObjectReply = DeleteFailed "int option" | DeleteOK

datatype event =
  EvGet string
| EvPut PutObjectRequest
| EvDelete DeleteObjectRequest
| EvSleep duration
| EvMakeStopCh
| EvCloseStopCh
| EvGoRenewLock
| EvGoWatchLock

datatype error =
  UUIDError
| GetObjectError "int option"
| ReadAllError
| UnmarshalError
| PutObjectError "int option"
| DeleteObjectError "int option"
| LockAlreadyHeld
| Wrapf string error

text \<open>
  A function of the source returns, or panics on a nil pointer. No path of the source
  recovers from a panic.
\<close>

datatype 'a result = NilDereference | Returned 'a

definition StatusNotFound :: int where
  "StatusNotFound = 404"

subsection \<open>get (lines 362-416)\<close>

record get_env =
  get_uuid :: "string option"
  get_reply :: GetObjectReply

definition get :: "Lock \<Rightarrow> get_env \<Rightarrow> event list \<times> (error + LockRecord option \<times> string)" where
  "get l env =
     (case get_uuid env of
        None \<Rightarrow> ([], Inl (Wrapf ''failed to generate UUID'' UUIDError))
      | Some opcClientRequestId \<Rightarrow>
          (case get_reply env of
             GetFailed raw \<Rightarrow>
               (if raw = Some StatusNotFound then ([EvGet (key l)], Inr (None, ''''))
                else ([EvGet (key l)], Inl (Wrapf ''failed to read Value'' (GetObjectError raw))))
           | GetOK b e \<Rightarrow>
               (case b of
                  Unreadable \<Rightarrow>
                    ([EvGet (key l)], Inl (Wrapf ''failed to decode Value into bytes'' ReadAllError))
                | Undecodable \<Rightarrow>
                    ([EvGet (key l)], Inl (Wrapf ''failed to read Value'' UnmarshalError))
                | Decoded r \<Rightarrow> ([EvGet (key l)], Inr (Some r, e)))))"

subsection \<open>writeLock (lines 418-550)\<close>

text \<open>
  The environment of one call: the four readings of the clock (lines 439, 450, 458 and
  544), the environment of the GET, the UUID of the PUT, and the reply to the PUT of
  each attempt.
\<close>

record wl_env =
  now_check :: time
  wl_get :: get_env
  now_store :: time
  now_gate :: time
  put_uuid :: "string option"
  put_replies :: "nat \<Rightarrow> PutObjectReply"
  now_done :: time

text \<open>
  The loop of lines 501-534. It returns the events, \<^verbatim>\<open>newtEtag\<close> and \<^verbatim>\<open>err\<close>. The
  division of the status code is Go's, which truncates.
\<close>

function putLoop ::
  "(nat \<Rightarrow> PutObjectReply) \<Rightarrow> PutObjectRequest \<Rightarrow> nat \<Rightarrow> string \<Rightarrow> error option
     \<Rightarrow> event list \<times> string \<times> error option" where
  "putLoop replies putRequest i newtEtag err =
     (if i \<le> LockWriteRetriesOnFailures then
        (case replies i of
           PutOK e \<Rightarrow> ([EvPut putRequest], e, err)
         | PutFailed raw \<Rightarrow>
             (case raw of
                None \<Rightarrow> ([EvPut putRequest], newtEtag, Some (PutObjectError raw))
              | Some statusCode \<Rightarrow>
                  (if statusCode sdiv 100 = 5 then
                     (case putLoop replies putRequest (i + 1) newtEtag (Some (PutObjectError raw)) of
                        (evs, r) \<Rightarrow>
                          (EvPut putRequest # EvSleep (100 * int i * Millisecond) # evs, r))
                   else ([EvPut putRequest], newtEtag, Some (PutObjectError raw)))))
      else ([], newtEtag, err))"
  by pat_completeness auto
termination
  by (relation "measure (\<lambda>(replies, putRequest, i, newtEtag, err). Suc LockWriteRetriesOnFailures - i)") auto

declare putLoop.simps [simp del]

text \<open>
  Lines 484-499: the request. It is built once and sent by every attempt. The
  precondition is chosen by the entity tag of the local variable \<^verbatim>\<open>lockRecordCache\<close>.
\<close>

definition newPutRequest :: "Lock \<Rightarrow> LockRecord \<Rightarrow> string \<Rightarrow> string \<Rightarrow> PutObjectRequest" where
  "newPutRequest l newLockRecord opcClientRequestId cachedEtag =
     (if cachedEtag = '''' then
        \<lparr>put_ObjectName = key l, put_Body = newLockRecord,
         put_IfMatch = None, put_IfNoneMatch = Some ''*'',
         put_OpcClientRequestId = opcClientRequestId\<rparr>
      else
        \<lparr>put_ObjectName = key l, put_Body = newLockRecord,
         put_IfMatch = Some cachedEtag, put_IfNoneMatch = None,
         put_OpcClientRequestId = opcClientRequestId\<rparr>)"

text \<open>
  Lines 464-549: the new record, the request, the attempts, and the store of the new
  cache entry. \<^verbatim>\<open>json.Marshal\<close> of a struct of three strings does not fail. The
  argument \<open>snapshot\<close> is the local variable \<^verbatim>\<open>lockRecordCache\<close>, read at line 494
  after the UUID is made.
\<close>

definition writeLock_put ::
  "Lock \<Rightarrow> LockCache option \<Rightarrow> wl_env \<Rightarrow> event list \<times> Lock \<times> (bool \<times> error option) result" where
  "writeLock_put l snapshot env =
     (let newLockRecord = \<lparr>Key = key l, Value = val l, Identity = identity l\<rparr> in
      case put_uuid env of
        None \<Rightarrow> ([], l, Returned (False, Some (Wrapf ''failed to generate UUID'' UUIDError)))
      | Some opcClientRequestId \<Rightarrow>
          (case snapshot of
             None \<Rightarrow> ([], l, NilDereference)
           | Some c \<Rightarrow>
               (case putLoop (put_replies env)
                       (newPutRequest l newLockRecord opcClientRequestId (etag c)) 1 '''' None of
                  (evs, newtEtag, err) \<Rightarrow>
                    (case err of
                       Some e \<Rightarrow> (evs, l, Returned (False, Some (Wrapf ''write lock'' e)))
                     | None \<Rightarrow>
                         (evs,
                          l\<lparr>lockRecordCache :=
                              Some \<lparr>etag = newtEtag, lastUpdate = now_done env,
                                    lockRecord = Some newLockRecord\<rparr>\<rparr>,
                          Returned (True, None))))))"

text \<open>
  Lines 437-439: the attempt is a secondary's when the cache is nil, holds no record,
  holds the record of another identity, or is older than the TTL.
\<close>

definition isSecondary :: "Lock \<Rightarrow> time \<Rightarrow> bool" where
  "isSecondary l now =
     (case lockRecordCache l of
        None \<Rightarrow> True
      | Some c \<Rightarrow>
          (case lockRecord c of
             None \<Rightarrow> True
           | Some r \<Rightarrow> Identity r \<noteq> identity l \<or> time_Sub now (lastUpdate c) > ttl l))"

text \<open>
  Lines 446-455: the cache is replaced when it is nil or its entity tag differs from the
  one just read, and the local variable is loaded again.
\<close>

definition refreshCache :: "Lock \<Rightarrow> LockRecord option \<Rightarrow> string \<Rightarrow> time \<Rightarrow> Lock" where
  "refreshCache l currentLockRecord currentEtag now =
     (if (case lockRecordCache l of None \<Rightarrow> True | Some c \<Rightarrow> etag c \<noteq> currentEtag)
      then l\<lparr>lockRecordCache :=
               Some \<lparr>etag = currentEtag, lastUpdate = now, lockRecord = currentLockRecord\<rparr>\<rparr>
      else l)"

definition prepend ::
  "event list \<Rightarrow> event list \<times> 'a \<Rightarrow> event list \<times> 'a" where
  "prepend evs r = (case r of (evs', x) \<Rightarrow> (evs @ evs', x))"

definition writeLock ::
  "Lock \<Rightarrow> wl_env \<Rightarrow> event list \<times> Lock \<times> (bool \<times> error option) result" where
  "writeLock l env =
     (if isSecondary l (now_check env) then
        (case get l (wl_get env) of
           (evs, Inl e) \<Rightarrow>
             (evs, l, Returned (False, Some (Wrapf ''error reading lock record'' e)))
         | (evs, Inr (currentLockRecord, currentEtag)) \<Rightarrow>
             (let l' = refreshCache l currentLockRecord currentEtag (now_store env) in
              case currentLockRecord of
                None \<Rightarrow> prepend evs (writeLock_put l' (lockRecordCache l') env)
              | Some r \<Rightarrow>
                  (case lockRecordCache l' of
                     None \<Rightarrow> (evs, l', NilDereference)
                   | Some c \<Rightarrow>
                       (if time_Sub (now_gate env) (lastUpdate c) < LockCacheMinAcceptableAge
                        then (evs, l', Returned (False, None))
                        else prepend evs (writeLock_put l' (lockRecordCache l') env)))))
      else writeLock_put l (lockRecordCache l) env)"

subsection \<open>watchLock (lines 225-289)\<close>

text \<open>
  What one iteration of the loop meets: whether \<^verbatim>\<open>stopCh\<close> is closed at the first
  \<^verbatim>\<open>select\<close>, which case of the second \<^verbatim>\<open>select\<close> fires, the cache entry loaded
  at line 254 (the renew loop stores it concurrently), the clock, and the environment
  of the GET.
\<close>

datatype select_case = Tick | StopClosed

record watch_step =
  ws_stop_closed :: bool
  ws_select :: select_case
  ws_cache :: "LockCache option"
  ws_now :: time
  ws_get :: get_env

text \<open>
  The loop \<^verbatim>\<open>OUTER\<close>. The result is \<open>None\<close> while the loop is still running after the
  given iterations, and the events up to the \<^verbatim>\<open>break\<close> otherwise.
\<close>

fun watchLoop :: "Lock \<Rightarrow> int \<Rightarrow> watch_step list \<Rightarrow> event list option" where
  "watchLoop l retries [] = None"
| "watchLoop l retries (s # ss) =
     (if ws_stop_closed s then Some []
      else if retries \<ge> watchRetryMax l - 1 then Some []
      else
        (case ws_select s of
           StopClosed \<Rightarrow> Some []
         | Tick \<Rightarrow>
             (case ws_cache s of
                None \<Rightarrow> Some []
              | Some c \<Rightarrow>
                  (case lockRecord c of
                     None \<Rightarrow> Some []
                   | Some r \<Rightarrow>
                       (if Identity r \<noteq> identity l \<or> time_Sub (ws_now s) (lastUpdate c) > ttl l
                        then Some []
                        else
                          (case get l (ws_get s) of
                             (evs, Inl e) \<Rightarrow> map_option ((@) evs) (watchLoop l (retries + 1) ss)
                           | (evs, Inr (current, e)) \<Rightarrow>
                               (case current of
                                  None \<Rightarrow> Some evs
                                | Some r' \<Rightarrow>
                                    (if Identity r' \<noteq> identity l then Some evs
                                     else map_option ((@) evs) (watchLoop l 0 ss)))))))))"

text \<open>
  After the loop (lines 282-288) the channel is closed unless \<^verbatim>\<open>stopped\<close> says that
  it is closed already.
\<close>

definition watchLock :: "Lock \<Rightarrow> watch_step list \<Rightarrow> (event list \<times> Lock) option" where
  "watchLock l steps =
     (case watchLoop l 0 steps of
        None \<Rightarrow> None
      | Some evs \<Rightarrow>
          (if \<not> stopped l then Some (evs @ [EvCloseStopCh], l\<lparr>stopped := True\<rparr>)
           else Some (evs, l)))"

subsection \<open>renewLock (lines 198-211)\<close>

text \<open>
  The renew loop calls \<^verbatim>\<open>writeLock\<close> on every tick and drops what it returns, until
  the stop channel is closed. A panic of the call ends the goroutine.
\<close>

datatype renew_step = RenewTick wl_env | RenewStop

fun renewLock :: "Lock \<Rightarrow> renew_step list \<Rightarrow> (event list \<times> Lock \<times> unit result) option" where
  "renewLock l [] = None"
| "renewLock l (RenewStop # ss) = Some ([], l, Returned ())"
| "renewLock l (RenewTick env # ss) =
     (case writeLock l env of
        (evs, l', NilDereference) \<Rightarrow> Some (evs, l', NilDereference)
      | (evs, l', Returned r) \<Rightarrow>
          map_option (\<lambda>(evs', x). (evs @ evs', x)) (renewLock l' ss))"

subsection \<open>Unlock (lines 291-345)\<close>

record unlock_env =
  ul_get :: get_env
  del_uuid :: "string option"
  del_reply :: DeleteObjectReply

definition Unlock :: "Lock \<Rightarrow> unlock_env \<Rightarrow> event list \<times> Lock \<times> error option" where
  "Unlock l env =
     (if \<not> held l then ([], l, None)
      else
        (let closing = (if \<not> stopped l then [EvCloseStopCh] else []);
             l' = l\<lparr>stopped := True, held := False\<rparr>
         in case get l' (ul_get env) of
              (evs, Inl e) \<Rightarrow>
                (closing @ evs, l', Some (Wrapf ''error reading lock record'' e))
            | (evs, Inr (currentLockRecord, e)) \<Rightarrow>
                (case currentLockRecord of
                   None \<Rightarrow> (closing @ evs, l', None)
                 | Some r \<Rightarrow>
                     (if Identity r = identity l' then
                        (case del_uuid env of
                           None \<Rightarrow>
                             (closing @ evs, l', Some (Wrapf ''failed to generate UUID'' UUIDError))
                         | Some opcClientRequestId \<Rightarrow>
                             (let request =
                                    \<lparr>del_ObjectName = key l', del_IfMatch = e,
                                     del_OpcClientRequestId = opcClientRequestId\<rparr>
                              in case del_reply env of
                                   DeleteFailed raw \<Rightarrow>
                                     (closing @ evs @ [EvDelete request], l',
                                      Some (Wrapf ''write lock'' (DeleteObjectError raw)))
                                 | DeleteOK \<Rightarrow> (closing @ evs @ [EvDelete request], l', None)))
                      else (closing @ evs, l', None)))))"

subsection \<open>Value (lines 347-359)\<close>

definition Lock_Value :: "Lock \<Rightarrow> get_env \<Rightarrow> event list \<times> (bool \<times> string \<times> error option)" where
  "Lock_Value l env =
     (case get l env of
        (evs, Inl e) \<Rightarrow> (evs, (False, '''', Some e))
      | (evs, Inr (None, e)) \<Rightarrow> (evs, (False, '''', None))
      | (evs, Inr (Some r, e)) \<Rightarrow> (evs, (True, Value r, None)))"

subsection \<open>LockWith, attemptLock and Lock (lines 116-195)\<close>

text \<open>The argument \<open>uuid\<close> is what \<^verbatim>\<open>uuid.GenerateUUID\<close> gives, \<open>None\<close> for its error.\<close>

definition LockWith :: "string \<Rightarrow> string \<Rightarrow> string option \<Rightarrow> error + Lock" where
  "LockWith k v uuid =
     (case uuid of
        None \<Rightarrow> Inl (Wrapf ''Lock with'' UUIDError)
      | Some i \<Rightarrow>
          Inr \<lparr>key = k, val = v, held = False, identity = i, stopped = True,
               lockRecordCache = None,
               renewInterval = LockRenewInterval,
               retryInterval = LockRetryInterval,
               ttl = LockTTL,
               watchRetryInterval = LockWatchRetryInterval,
               watchRetryMax = LockWatchRetryMax\<rparr>)"

text \<open>
  The loop of \<^verbatim>\<open>attemptLock\<close> waits for the ticker or for the caller's channel. Each
  element of the list is the case that fires, a tick with the environment of its call of
  \<^verbatim>\<open>writeLock\<close>. With no element left the function is still waiting (\<open>None\<close>).
\<close>

datatype attempt_step = AttemptTick wl_env | AttemptStop

fun attemptLock ::
  "Lock \<Rightarrow> attempt_step list \<Rightarrow> (event list \<times> Lock \<times> (bool \<times> error option) result) option" where
  "attemptLock l [] = None"
| "attemptLock l (AttemptStop # ss) = Some ([], l, Returned (False, None))"
| "attemptLock l (AttemptTick env # ss) =
     (case writeLock l env of
        (evs, l', NilDereference) \<Rightarrow> Some (evs, l', NilDereference)
      | (evs, l', Returned (acquired, Some e)) \<Rightarrow>
          Some (evs, l', Returned (False, Some (Wrapf ''attempt lock'' e)))
      | (evs, l', Returned (acquired, None)) \<Rightarrow>
          (if \<not> acquired then
             map_option (\<lambda>(evs', r). (evs @ evs', r)) (attemptLock l' ss)
           else Some (evs, l', Returned (True, None))))"

text \<open>
  \<^verbatim>\<open>Lock\<close> returns an error, or nil for the channel when the caller stopped the
  attempt (\<open>False\<close>), or the new stop channel (\<open>True\<close>).
\<close>

definition Lock_Lock ::
  "Lock \<Rightarrow> attempt_step list \<Rightarrow> (event list \<times> Lock \<times> (error + bool) result) option" where
  "Lock_Lock l steps =
     (if held l then Some ([], l, Returned (Inl LockAlreadyHeld))
      else
        (case attemptLock l steps of
           None \<Rightarrow> None
         | Some (evs, l', NilDereference) \<Rightarrow> Some (evs, l', NilDereference)
         | Some (evs, l', Returned (acquired, Some e)) \<Rightarrow>
             Some (evs, l', Returned (Inl (Wrapf ''lock'' e)))
         | Some (evs, l', Returned (acquired, None)) \<Rightarrow>
             (if \<not> acquired then Some (evs, l', Returned (Inr False))
              else Some (evs @ [EvMakeStopCh, EvGoRenewLock, EvGoWatchLock],
                         l'\<lparr>held := True, stopped := False\<rparr>, Returned (Inr True)))))"

section \<open>What a trace contains\<close>

text \<open>The requests of each kind in a list of events, in order.\<close>

fun puts :: "event list \<Rightarrow> PutObjectRequest list" where
  "puts [] = []"
| "puts (EvPut r # evs) = r # puts evs"
| "puts (ev # evs) = puts evs"

fun gets :: "event list \<Rightarrow> string list" where
  "gets [] = []"
| "gets (EvGet k # evs) = k # gets evs"
| "gets (ev # evs) = gets evs"

fun deletes :: "event list \<Rightarrow> DeleteObjectRequest list" where
  "deletes [] = []"
| "deletes (EvDelete r # evs) = r # deletes evs"
| "deletes (ev # evs) = deletes evs"

text \<open>
  The reply on which line 526 retries: an error whose response carries a status code
  with quotient 5 by 100.
\<close>

definition is5xx :: "PutObjectReply \<Rightarrow> bool" where
  "is5xx r = (case r of PutFailed (Some statusCode) \<Rightarrow> statusCode sdiv 100 = 5 | _ \<Rightarrow> False)"

definition backoff :: "nat \<Rightarrow> duration" where
  "backoff i = 100 * int i * Millisecond"

definition attempt_events :: "(nat \<Rightarrow> PutObjectReply) \<Rightarrow> PutObjectRequest \<Rightarrow> nat \<Rightarrow> event list" where
  "attempt_events replies req i =
     EvPut req # (if is5xx (replies i) then [EvSleep (backoff i)] else [])"

text \<open>
  The precondition of a request that goes with an entity tag \<open>e\<close>: \<^verbatim>\<open>IfNoneMatch: *\<close>
  alone for the empty tag, \<^verbatim>\<open>IfMatch: e\<close> alone otherwise.
\<close>

definition has_precondition :: "string \<Rightarrow> PutObjectRequest \<Rightarrow> bool" where
  "has_precondition e req =
     (if e = '''' then put_IfNoneMatch req = Some ''*'' \<and> put_IfMatch req = None
      else put_IfMatch req = Some e \<and> put_IfNoneMatch req = None)"

text \<open>
  The DELETE that \<^verbatim>\<open>Unlock\<close> sends after its GET: none unless the GET gave a record
  of this identity and a request id could be made, and then one whose \<^verbatim>\<open>IfMatch\<close>
  is the entity tag that the GET returned.
\<close>

definition expected_delete :: "Lock \<Rightarrow> unlock_env \<Rightarrow> DeleteObjectRequest list" where
  "expected_delete l env =
     (case snd (get l (ul_get env)) of
        Inl e \<Rightarrow> []
      | Inr (None, e) \<Rightarrow> []
      | Inr (Some r, e) \<Rightarrow>
          (if Identity r = identity l then
             (case del_uuid env of
                None \<Rightarrow> []
              | Some rid \<Rightarrow>
                  [\<lparr>del_ObjectName = key l, del_IfMatch = e, del_OpcClientRequestId = rid\<rparr>])
           else []))"

section \<open>Example runs\<close>

text \<open>
  Two contenders A and B for the key \<open>core/lock\<close>. \<open>lockA\<close> is what \<^verbatim>\<open>LockWith\<close>
  makes for A, \<open>leaderA\<close> is A after it acquired the lock at second 7 with entity tag
  \<open>e1\<close>.
\<close>

definition recordA :: LockRecord where
  "recordA = \<lparr>Key = ''core/lock'', Value = ''https://a:8200'', Identity = ''id-a''\<rparr>"

definition recordB :: LockRecord where
  "recordB = \<lparr>Key = ''core/lock'', Value = ''https://b:8200'', Identity = ''id-b''\<rparr>"

definition lockA :: Lock where
  "lockA = \<lparr>key = ''core/lock'', val = ''https://a:8200'', held = False, identity = ''id-a'',
            stopped = True, lockRecordCache = None,
            renewInterval = LockRenewInterval, retryInterval = LockRetryInterval, ttl = LockTTL,
            watchRetryInterval = LockWatchRetryInterval, watchRetryMax = LockWatchRetryMax\<rparr>"

definition cacheA :: LockCache where
  "cacheA = \<lparr>etag = ''e1'', lastUpdate = 7 * Second, lockRecord = Some recordA\<rparr>"

definition leaderA :: Lock where
  "leaderA = lockA\<lparr>held := True, stopped := False, lockRecordCache := Some cacheA\<rparr>"

text \<open>The object is absent: GET answers 404, the first PUT succeeds.\<close>

definition env_absent :: wl_env where
  "env_absent =
     \<lparr>now_check = 5 * Second,
      wl_get = \<lparr>get_uuid = Some ''u1'', get_reply = GetFailed (Some 404)\<rparr>,
      now_store = 6 * Second, now_gate = 6 * Second, put_uuid = Some ''u2'',
      put_replies = (\<lambda>i. PutOK ''e1''), now_done = 7 * Second\<rparr>"

text \<open>B holds the lock: GET answers with B's record.\<close>

definition env_incumbent :: wl_env where
  "env_incumbent =
     \<lparr>now_check = 5 * Second,
      wl_get = \<lparr>get_uuid = Some ''u1'', get_reply = GetOK (Decoded recordB) ''e5''\<rparr>,
      now_store = 6 * Second, now_gate = 6 * Second, put_uuid = Some ''u2'',
      put_replies = (\<lambda>i. PutOK ''e6''), now_done = 7 * Second\<rparr>"

text \<open>A renewal at second 10, with a PUT that succeeds, and with one that gets no response.\<close>

definition env_renew :: wl_env where
  "env_renew =
     \<lparr>now_check = 10 * Second,
      wl_get = \<lparr>get_uuid = Some ''u3'', get_reply = GetOK (Decoded recordA) ''e1''\<rparr>,
      now_store = 10 * Second, now_gate = 10 * Second, put_uuid = Some ''u4'',
      put_replies = (\<lambda>i. PutOK ''e2''), now_done = 11 * Second\<rparr>"

definition env_transport :: wl_env where
  "env_transport = env_renew\<lparr>put_replies := (\<lambda>i. PutFailed None)\<rparr>"

text \<open>Two answers 503, then success.\<close>

definition env_flapping :: wl_env where
  "env_flapping =
     env_renew\<lparr>put_replies := (\<lambda>i. if i < 3 then PutFailed (Some 503) else PutOK ''e9'')\<rparr>"

definition requestA :: PutObjectRequest where
  "requestA = \<lparr>put_ObjectName = ''core/lock'', put_Body = recordA,
     put_IfMatch = Some ''e1'', put_IfNoneMatch = None, put_OpcClientRequestId = ''u4''\<rparr>"

definition requestA_create :: PutObjectRequest where
  "requestA_create = \<lparr>put_ObjectName = ''core/lock'', put_Body = recordA,
     put_IfMatch = None, put_IfNoneMatch = Some ''*'', put_OpcClientRequestId = ''u2''\<rparr>"

text \<open>
  \<^verbatim>\<open>Unlock\<close> when the object carries A's record under the entity tag \<open>e2\<close> (a renewal
  reached the store and its response was lost, so the cache still has \<open>e1\<close>), and when
  B has taken the lock.
\<close>

definition env_unlock :: unlock_env where
  "env_unlock = \<lparr>ul_get = \<lparr>get_uuid = Some ''u5'', get_reply = GetOK (Decoded recordA) ''e2''\<rparr>,
                 del_uuid = Some ''u6'', del_reply = DeleteOK\<rparr>"

definition env_unlock_taken :: unlock_env where
  "env_unlock_taken =
     \<lparr>ul_get = \<lparr>get_uuid = Some ''u5'', get_reply = GetOK (Decoded recordB) ''e7''\<rparr>,
      del_uuid = Some ''u6'', del_reply = DeleteOK\<rparr>"

text \<open>An iteration of the watch loop whose GET gets no response, and one whose GET succeeds.\<close>

definition watch_fail :: watch_step where
  "watch_fail = \<lparr>ws_stop_closed = False, ws_select = Tick, ws_cache = Some cacheA,
                 ws_now = 8 * Second,
                 ws_get = \<lparr>get_uuid = Some ''u7'', get_reply = GetFailed None\<rparr>\<rparr>"

definition watch_ok :: watch_step where
  "watch_ok = \<lparr>ws_stop_closed = False, ws_select = Tick, ws_cache = Some cacheA,
               ws_now = 8 * Second,
               ws_get = \<lparr>get_uuid = Some ''u7'', get_reply = GetOK (Decoded recordA) ''e1''\<rparr>\<rparr>"

text \<open>A lock whose TTL was set below its renew interval.\<close>

definition lock_short_ttl :: Lock where
  "lock_short_ttl = lockA\<lparr>ttl := 2 * Second\<rparr>"

section \<open>The object store\<close>

text \<open>
  Modelled from the spec: the object store is not code of the repository. Sections 2, 3
  and 6 of the spec give its contract: one object per key, holding the body and the
  entity tag of its last mutation.
\<close>

record store =
  object :: "(LockRecord \<times> string) option"
  mutations :: nat

text \<open>
  Modelled from the spec: every mutation produces a new entity tag (section 3). The tag
  of the \<open>n\<close>-th mutation is \<open>v\<close> followed by \<open>n\<close> times \<open>i\<close>; it is never empty.
\<close>

definition store_etag :: "nat \<Rightarrow> string" where
  "store_etag n = CHR ''v'' # replicate n (CHR ''i'')"

definition StatusPreconditionFailed :: int where
  "StatusPreconditionFailed = 412"

text \<open>
  Modelled from the spec: a GET returns the body and the entity tag of the object, or
  answers 404 when there is none (sections 4.6 and 6).
\<close>

definition store_get :: "store \<Rightarrow> GetObjectReply" where
  "store_get s =
     (case object s of
        None \<Rightarrow> GetFailed (Some StatusNotFound)
      | Some (r, e) \<Rightarrow> GetOK (Decoded r) e)"

text \<open>
  Modelled from the spec: \<^verbatim>\<open>IfMatch\<close> holds when the object has that entity tag,
  \<^verbatim>\<open>IfNoneMatch: *\<close> when there is no object (section 4.2, step 5).
\<close>

definition precondition_holds :: "store \<Rightarrow> PutObjectRequest \<Rightarrow> bool" where
  "precondition_holds s req =
     ((case put_IfMatch req of
         None \<Rightarrow> True
       | Some e \<Rightarrow> (case object s of None \<Rightarrow> False | Some (r, e') \<Rightarrow> e' = e)) \<and>
      (case put_IfNoneMatch req of
         None \<Rightarrow> True
       | Some x \<Rightarrow>
           (case object s of None \<Rightarrow> True | Some (r, e') \<Rightarrow> x \<noteq> ''*'' \<and> x \<noteq> e')))"

text \<open>
  Modelled from the spec: a PUT whose preconditions hold replaces the object and
  returns its new entity tag; one whose preconditions fail changes nothing and answers
  412, precondition failed (sections 4.2 and 4.6).
\<close>

definition store_put :: "store \<Rightarrow> PutObjectRequest \<Rightarrow> PutObjectReply \<times> store" where
  "store_put s req =
     (if precondition_holds s req then
        (PutOK (store_etag (mutations s)),
         \<lparr>object = Some (put_Body req, store_etag (mutations s)),
          mutations = Suc (mutations s)\<rparr>)
      else (PutFailed (Some StatusPreconditionFailed), s))"

text \<open>The replies of a call are those of the store \<open>s\<close>, its PUT being \<open>req\<close>.\<close>

definition replies_from :: "store \<Rightarrow> PutObjectRequest \<Rightarrow> wl_env \<Rightarrow> bool" where
  "replies_from s req env =
     (get_reply (wl_get env) = store_get s \<and> put_replies env 1 = fst (store_put s req))"

section \<open>Two contenders on one store\<close>

text \<open>
  A and B call \<^verbatim>\<open>Lock\<close> on an empty store. The first tick of A is at second 5: its
  GET finds nothing and its PUT is applied by the store, which answers at once. The
  goroutine of A is then paused, and reads the clock of line 544 at second 60. The
  ticks of B come every five seconds from second 7, after the PUT of A; each GET of B
  is answered by the store as A's PUT left it, and the PUT of B at second 52 is
  applied to that store.
\<close>

definition store0 :: store where
  "store0 = \<lparr>object = None, mutations = 0\<rparr>"

definition lockB :: Lock where
  "lockB = \<lparr>key = ''core/lock'', val = ''https://b:8200'', held = False, identity = ''id-b'',
            stopped = True, lockRecordCache = None,
            renewInterval = LockRenewInterval, retryInterval = LockRetryInterval, ttl = LockTTL,
            watchRetryInterval = LockWatchRetryInterval, watchRetryMax = LockWatchRetryMax\<rparr>"

definition putA :: PutObjectRequest where
  "putA = \<lparr>put_ObjectName = ''core/lock'', put_Body = recordA,
     put_IfMatch = None, put_IfNoneMatch = Some ''*'', put_OpcClientRequestId = ''a2''\<rparr>"

definition store1 :: store where
  "store1 = snd (store_put store0 putA)"

definition putB :: PutObjectRequest where
  "putB = \<lparr>put_ObjectName = ''core/lock'', put_Body = recordB,
     put_IfMatch = Some ''v'', put_IfNoneMatch = None, put_OpcClientRequestId = ''b2''\<rparr>"

definition store2 :: store where
  "store2 = snd (store_put store1 putB)"

definition envA_paused :: wl_env where
  "envA_paused =
     \<lparr>now_check = 5 * Second,
      wl_get = \<lparr>get_uuid = Some ''a1'', get_reply = store_get store0\<rparr>,
      now_store = 5 * Second, now_gate = 5 * Second, put_uuid = Some ''a2'',
      put_replies = (\<lambda>i. fst (store_put store0 putA)), now_done = 60 * Second\<rparr>"

definition envB_at :: "time \<Rightarrow> wl_env" where
  "envB_at t =
     \<lparr>now_check = t,
      wl_get = \<lparr>get_uuid = Some ''b1'', get_reply = store_get store1\<rparr>,
      now_store = t, now_gate = t, put_uuid = Some ''b2'',
      put_replies = (\<lambda>i. fst (store_put store1 putB)), now_done = t\<rparr>"

definition ticksB :: "attempt_step list" where
  "ticksB =
     [AttemptTick (envB_at (7 * Second)), AttemptTick (envB_at (12 * Second)),
      AttemptTick (envB_at (17 * Second)), AttemptTick (envB_at (22 * Second)),
      AttemptTick (envB_at (27 * Second)), AttemptTick (envB_at (32 * Second)),
      AttemptTick (envB_at (37 * Second)), AttemptTick (envB_at (42 * Second)),
      AttemptTick (envB_at (47 * Second)), AttemptTick (envB_at (52 * Second))]"

definition leaderA_late :: Lock where
  "leaderA_late =
     lockA\<lparr>held := True, stopped := False,
           lockRecordCache :=
             Some \<lparr>etag = ''v'', lastUpdate = 60 * Second, lockRecord = Some recordA\<rparr>\<rparr>"

definition leaderB :: Lock where
  "leaderB =
     lockB\<lparr>held := True, stopped := False,
           lockRecordCache :=
             Some \<lparr>etag = ''vi'', lastUpdate = 52 * Second, lockRecord = Some recordB\<rparr>\<rparr>"

section \<open>Properties\<close>

subsection \<open>Unfolding the definitions on the example runs\<close>

lemmas consts_defs = Second_def Millisecond_def LockTTL_def LockRenewInterval_def
  LockRetryInterval_def LockWatchRetryInterval_def LockWatchRetryMax_def
  LockCacheMinAcceptableAge_def LockWriteRetriesOnFailures_def minDuration_def maxDuration_def
  StatusNotFound_def

lemmas inputs_defs = recordA_def recordB_def lockA_def cacheA_def leaderA_def env_absent_def
  env_incumbent_def env_renew_def env_transport_def env_flapping_def requestA_def
  requestA_create_def env_unlock_def env_unlock_taken_def watch_fail_def watch_ok_def
  lock_short_ttl_def

lemmas model_defs = writeLock_def writeLock_put_def isSecondary_def refreshCache_def get_def
  prepend_def newPutRequest_def time_Sub_def Let_def putLoop.simps

subsection \<open>Traces\<close>

lemma puts_append: "puts (xs @ ys) = puts xs @ puts ys"
  by (induction xs rule: puts.induct) auto

lemma gets_append: "gets (xs @ ys) = gets xs @ gets ys"
  by (induction xs rule: gets.induct) auto

lemma deletes_append: "deletes (xs @ ys) = deletes xs @ deletes ys"
  by (induction xs rule: deletes.induct) auto

lemma deletes_map: "deletes (map EvDelete rs) = rs"
  by (induction rs) auto

lemma deletes_closing: "deletes (if b then [] else [EvCloseStopCh]) = []"
  by simp

lemma fst_prepend: "fst (prepend evs r) = evs @ fst r"
  by (simp add: prepend_def split: prod.splits)

lemma snd_snd_prepend: "snd (snd (prepend evs r)) = snd (snd r)"
  by (simp add: prepend_def split: prod.splits)

lemma prepend_eq: "prepend evs r = (a, b) \<longleftrightarrow> (\<exists>evs'. r = (evs', b) \<and> a = evs @ evs')"
  by (auto simp: prepend_def split: prod.splits)

subsection \<open>get\<close>

lemma puts_get: "puts (fst (get l env)) = []"
  by (auto simp: get_def split: option.splits GetObjectReply.splits body.splits)

lemma deletes_get: "deletes (fst (get l env)) = []"
  by (auto simp: get_def split: option.splits GetObjectReply.splits body.splits)

lemma get_key: "key l' = key l \<Longrightarrow> get l' env = get l env"
  by (simp add: get_def split: option.splits GetObjectReply.splits body.splits)

lemma get_absent_etag: "get l genv = (gevs, Inr (None, e)) \<Longrightarrow> e = ''''"
  by (auto simp: get_def split: option.splits GetObjectReply.splits body.splits if_splits)

subsection \<open>The status test\<close>

lemma sdiv_100_eq_5: "(c::int) sdiv 100 = 5 \<longleftrightarrow> 500 \<le> c \<and> c \<le> 599"
proof (cases "c \<ge> 0")
  case True
  then show ?thesis by (simp add: signed_divide_int_def sgn_if) presburger
next
  case False
  then have "c sdiv 100 \<le> 0"
    by (simp add: signed_divide_int_def sgn_if)
  with False show ?thesis by simp
qed

lemma is5xx_D: "is5xx r \<Longrightarrow> \<exists>c. r = PutFailed (Some c) \<and> c sdiv 100 = 5"
  by (auto simp: is5xx_def split: PutObjectReply.splits option.splits)

lemma is5xx_iff:
  "is5xx r = (\<exists>statusCode. r = PutFailed (Some statusCode) \<and> 500 \<le> statusCode \<and> statusCode \<le> 599)"
  by (cases r) (auto simp: is5xx_def sdiv_100_eq_5 split: option.splits)

subsection \<open>The attempts of the PUT\<close>

lemma putLoop_over:
  "\<not> i \<le> LockWriteRetriesOnFailures \<Longrightarrow> putLoop replies req i e err = ([], e, err)"
  by (subst putLoop.simps) simp

lemma putLoop_terminal:
  "i \<le> LockWriteRetriesOnFailures \<Longrightarrow> \<not> is5xx (replies i) \<Longrightarrow>
   fst (putLoop replies req i e err) = [EvPut req]"
  by (subst putLoop.simps) (simp add: is5xx_def split: PutObjectReply.splits option.splits)

lemma putLoop_retry:
  assumes "i \<le> LockWriteRetriesOnFailures" and "is5xx (replies i)"
  shows "\<exists>err'. putLoop replies req i e err =
     (EvPut req # EvSleep (backoff i) # fst (putLoop replies req (Suc i) e err'),
      snd (putLoop replies req (Suc i) e err'))"
proof -
  from is5xx_D [OF assms(2)] obtain c where c: "replies i = PutFailed (Some c)" "c sdiv 100 = 5"
    by blast
  have "putLoop replies req i e err =
     (EvPut req # EvSleep (backoff i) #
        fst (putLoop replies req (Suc i) e (Some (PutObjectError (Some c)))),
      snd (putLoop replies req (Suc i) e (Some (PutObjectError (Some c)))))"
    by (subst putLoop.simps) (simp add: assms(1) c backoff_def split: prod.splits)
  then show ?thesis by blast
qed

text \<open>The trace is one PUT per attempt made, each followed by its sleep when it got a 5xx.\<close>

lemma putLoop_trace:
  "fst (putLoop replies req i e err) =
     concat (map (attempt_events replies req)
       [i ..< i + length (puts (fst (putLoop replies req i e err)))])"
proof (induction "Suc LockWriteRetriesOnFailures - i" arbitrary: i err)
  case 0
  then have "\<not> i \<le> LockWriteRetriesOnFailures" by simp
  then show ?case by (simp add: putLoop_over)
next
  case (Suc n)
  then have le: "i \<le> LockWriteRetriesOnFailures" by simp
  show ?case
  proof (cases "is5xx (replies i)")
    case False
    with le show ?thesis by (simp add: putLoop_terminal attempt_events_def)
  next
    case True
    from putLoop_retry [of i replies req e err, OF le True] obtain err' where
      step: "fst (putLoop replies req i e err) =
               EvPut req # EvSleep (backoff i) # fst (putLoop replies req (Suc i) e err')"
      by auto
    from Suc have "n = Suc LockWriteRetriesOnFailures - Suc i" by simp
    from Suc.hyps(1) [OF this, of err'] have
      ih: "fst (putLoop replies req (Suc i) e err') =
             concat (map (attempt_events replies req)
               [Suc i ..< Suc i + length (puts (fst (putLoop replies req (Suc i) e err')))])" .
    let ?m = "length (puts (fst (putLoop replies req (Suc i) e err')))"
    have len: "length (puts (fst (putLoop replies req i e err))) = Suc ?m"
      by (simp add: step)
    have "[i ..< i + Suc ?m] = i # [Suc i ..< i + Suc ?m]"
      by (rule upt_conv_Cons) simp
    then have "[i ..< i + Suc ?m] = i # [Suc i ..< Suc i + ?m]"
      by simp
    then have "concat (map (attempt_events replies req) [i ..< i + Suc ?m]) =
                 attempt_events replies req i @ fst (putLoop replies req (Suc i) e err')"
      using ih by simp
    then have "concat (map (attempt_events replies req) [i ..< i + Suc ?m]) =
                 fst (putLoop replies req i e err)"
      using True by (simp add: step attempt_events_def)
    then show ?thesis
      by (simp only: len)
  qed
qed

text \<open>Attempt \<open>i + k\<close> is made exactly when every attempt from \<open>i\<close> on before it got a 5xx.\<close>

lemma putLoop_count:
  "i + k \<le> LockWriteRetriesOnFailures \<Longrightarrow>
     (k < length (puts (fst (putLoop replies req i e err)))) =
     (\<forall>j. i \<le> j \<and> j < i + k \<longrightarrow> is5xx (replies j))"
proof (induction k arbitrary: i err)
  case 0
  then have le: "i \<le> LockWriteRetriesOnFailures" by simp
  show ?case
  proof (cases "is5xx (replies i)")
    case False
    with le show ?thesis by (auto simp: putLoop_terminal)
  next
    case True
    from putLoop_retry [of i replies req e err, OF le True] show ?thesis by auto
  qed
next
  case (Suc k)
  then have le: "i \<le> LockWriteRetriesOnFailures" by simp
  show ?case
  proof (cases "is5xx (replies i)")
    case False
    with le have "length (puts (fst (putLoop replies req i e err))) = 1"
      by (simp add: putLoop_terminal)
    moreover from False have "\<not> (\<forall>j. i \<le> j \<and> j < i + Suc k \<longrightarrow> is5xx (replies j))"
      by (auto intro: exI [of _ i])
    ultimately show ?thesis by simp
  next
    case True
    from putLoop_retry [of i replies req e err, OF le True] obtain err' where
      step: "fst (putLoop replies req i e err) =
               EvPut req # EvSleep (backoff i) # fst (putLoop replies req (Suc i) e err')"
      by auto
    from Suc.prems have "Suc i + k \<le> LockWriteRetriesOnFailures" by simp
    from Suc.IH [OF this, of err'] have
      ih: "(k < length (puts (fst (putLoop replies req (Suc i) e err')))) =
           (\<forall>j. Suc i \<le> j \<and> j < Suc i + k \<longrightarrow> is5xx (replies j))" .
    have "(\<forall>j. i \<le> j \<and> j < i + Suc k \<longrightarrow> is5xx (replies j)) =
          (\<forall>j. Suc i \<le> j \<and> j < Suc i + k \<longrightarrow> is5xx (replies j))"
    proof
      assume a: "\<forall>j. i \<le> j \<and> j < i + Suc k \<longrightarrow> is5xx (replies j)"
      show "\<forall>j. Suc i \<le> j \<and> j < Suc i + k \<longrightarrow> is5xx (replies j)"
      proof (intro allI impI)
        fix j assume "Suc i \<le> j \<and> j < Suc i + k"
        then have "i \<le> j \<and> j < i + Suc k" by simp
        with a show "is5xx (replies j)" by blast
      qed
    next
      assume a: "\<forall>j. Suc i \<le> j \<and> j < Suc i + k \<longrightarrow> is5xx (replies j)"
      show "\<forall>j. i \<le> j \<and> j < i + Suc k \<longrightarrow> is5xx (replies j)"
      proof (intro allI impI)
        fix j assume j: "i \<le> j \<and> j < i + Suc k"
        show "is5xx (replies j)"
        proof (cases "j = i")
          case True
          with \<open>is5xx (replies i)\<close> show ?thesis by simp
        next
          case False
          with j have "Suc i \<le> j \<and> j < Suc i + k" by simp
          with a show ?thesis by blast
        qed
      qed
    qed
    with ih show ?thesis by (simp add: step)
  qed
qed

lemma putLoop_bound:
  "i + length (puts (fst (putLoop replies req i e err))) \<le> max i (Suc LockWriteRetriesOnFailures)"
proof (induction "Suc LockWriteRetriesOnFailures - i" arbitrary: i err)
  case 0
  then have "\<not> i \<le> LockWriteRetriesOnFailures" by simp
  then show ?case by (simp add: putLoop_over)
next
  case (Suc n)
  then have le: "i \<le> LockWriteRetriesOnFailures" by simp
  show ?case
  proof (cases "is5xx (replies i)")
    case False
    with le show ?thesis by (simp add: putLoop_terminal)
  next
    case True
    from putLoop_retry [of i replies req e err, OF le True] obtain err' where
      step: "fst (putLoop replies req i e err) =
               EvPut req # EvSleep (backoff i) # fst (putLoop replies req (Suc i) e err')"
      by auto
    from Suc have "n = Suc LockWriteRetriesOnFailures - Suc i" by simp
    from Suc.hyps(1) [OF this, of err'] le show ?thesis
      by (simp add: step)
  qed
qed

lemma putLoop_terminal_count:
  assumes "1 \<le> i" and "i \<le> length (puts (fst (putLoop replies req 1 e err)))"
    and "\<not> is5xx (replies i)"
  shows "length (puts (fst (putLoop replies req 1 e err))) = i"
proof (rule ccontr)
  let ?n = "length (puts (fst (putLoop replies req 1 e err)))"
  assume "?n \<noteq> i"
  with assms(2) have lt: "i < ?n" by simp
  from putLoop_bound [of 1 replies req e err] have "?n \<le> LockWriteRetriesOnFailures" by simp
  with lt have "1 + i \<le> LockWriteRetriesOnFailures" by simp
  from putLoop_count [OF this, of replies req e err] lt
  have "\<forall>j. 1 \<le> j \<and> j < 1 + i \<longrightarrow> is5xx (replies j)" by simp
  with assms(1) have "is5xx (replies i)" by simp
  with assms(3) show False by simp
qed

lemma putLoop_retried:
  assumes "1 \<le> i" and "i \<le> length (puts (fst (putLoop replies req 1 e err)))"
    and "is5xx (replies i)" and "i < LockWriteRetriesOnFailures"
  shows "i < length (puts (fst (putLoop replies req 1 e err)))"
proof -
  let ?n = "length (puts (fst (putLoop replies req 1 e err)))"
  from assms(1) obtain k where k: "i = Suc k" by (cases i) auto
  from assms(4) k have "1 + k \<le> LockWriteRetriesOnFailures" by simp
  from putLoop_count [OF this, of replies req e err] assms(2) k
  have early: "\<forall>j. 1 \<le> j \<and> j < i \<longrightarrow> is5xx (replies j)" by simp
  have all: "\<forall>j. 1 \<le> j \<and> j < 1 + i \<longrightarrow> is5xx (replies j)"
  proof (intro allI impI)
    fix j assume j: "1 \<le> j \<and> j < 1 + i"
    show "is5xx (replies j)"
    proof (cases "j = i")
      case True
      with assms(3) show ?thesis by simp
    next
      case False
      with j have "1 \<le> j \<and> j < i" by simp
      with early show ?thesis by blast
    qed
  qed
  from assms(4) have "1 + i \<le> LockWriteRetriesOnFailures" by simp
  from putLoop_count [OF this, of replies req e err] all show ?thesis by simp
qed

text \<open>Once \<^verbatim>\<open>err\<close> is set, no later attempt clears it.\<close>

lemma putLoop_err_sticky:
  "err \<noteq> None \<Longrightarrow> snd (snd (putLoop replies req i e err)) \<noteq> None"
proof (induction "Suc LockWriteRetriesOnFailures - i" arbitrary: i err)
  case 0
  then have "\<not> i \<le> LockWriteRetriesOnFailures" by simp
  with 0 show ?case by (simp add: putLoop_over)
next
  case (Suc n)
  then have le: "i \<le> LockWriteRetriesOnFailures" by simp
  from Suc have n: "n = Suc LockWriteRetriesOnFailures - Suc i" by simp
  have ih: "c \<noteq> None" if "putLoop replies req (Suc i) e (Some x) = (a, b, c)" for x a b c
    using Suc.hyps(1) [OF n, of "Some x"] that by simp
  show ?case
    using le Suc.prems ih
    by (subst putLoop.simps)
       (auto split: PutObjectReply.splits option.splits prod.splits)
qed

lemma putLoop_success:
  assumes "putLoop replies req 1 e0 None = (evs, e, None)"
  shows "replies 1 = PutOK e \<and> evs = [EvPut req]"
proof (cases "replies 1")
  case (PutOK e')
  with assms show ?thesis
    by (subst (asm) putLoop.simps) (simp add: LockWriteRetriesOnFailures_def)
next
  case (PutFailed raw)
  have "c \<noteq> None" if "putLoop replies req (Suc (Suc 0)) e0 (Some x) = (a, b, c)" for x a b c
    using putLoop_err_sticky [of "Some x" replies req "Suc (Suc 0)" e0] that by simp
  with assms PutFailed show ?thesis
    by (subst (asm) putLoop.simps)
       (auto simp: LockWriteRetriesOnFailures_def split: option.splits prod.splits if_splits)
qed

lemma puts_attempts:
  "puts (concat (map (attempt_events replies req) ks)) = replicate (length ks) req"
  by (induction ks) (simp_all add: puts_append attempt_events_def)

lemma putLoop_puts: "r \<in> set (puts (fst (putLoop replies req i e err))) \<Longrightarrow> r = req"
proof -
  assume a: "r \<in> set (puts (fst (putLoop replies req i e err)))"
  have "puts (fst (putLoop replies req i e err)) =
          replicate (length [i ..< i + length (puts (fst (putLoop replies req i e err)))]) req"
    by (subst putLoop_trace) (rule puts_attempts)
  with a show ?thesis by (metis in_set_replicate)
qed

lemma gets_attempts: "gets (concat (map (attempt_events replies req) ks)) = []"
  by (induction ks) (simp_all add: gets_append attempt_events_def)

lemma putLoop_gets: "gets (fst (putLoop replies req i e err)) = []"
  by (subst putLoop_trace) (rule gets_attempts)

subsection \<open>The request and the second half of writeLock\<close>

lemma newPutRequest_precondition:
  "has_precondition e (newPutRequest l r rid e)"
  by (simp add: has_precondition_def newPutRequest_def)

lemma has_precondition_exactly_one:
  "has_precondition e req \<Longrightarrow> (put_IfMatch req = None) \<noteq> (put_IfNoneMatch req = None)"
  by (auto simp: has_precondition_def split: if_splits)

lemma writeLock_put_events:
  "fst (writeLock_put l snap env) = [] \<or>
   (\<exists>c rid. snap = Some c \<and> put_uuid env = Some rid \<and>
      fst (writeLock_put l snap env) =
        fst (putLoop (put_replies env)
              (newPutRequest l \<lparr>Key = key l, Value = val l, Identity = identity l\<rparr> rid (etag c))
              1 [] None))"
  by (auto simp: writeLock_put_def Let_def split: prod.splits option.splits)

lemma writeLock_put_puts:
  assumes "req \<in> set (puts (fst (writeLock_put l snap env)))"
  shows "\<exists>c. snap = Some c \<and> has_precondition (etag c) req"
proof -
  from writeLock_put_events [of l snap env] assms obtain c rid where
    c: "snap = Some c" and
    ev: "fst (writeLock_put l snap env) =
        fst (putLoop (put_replies env)
              (newPutRequest l \<lparr>Key = key l, Value = val l, Identity = identity l\<rparr> rid (etag c))
              1 [] None)"
    by auto
  from assms ev
  have "req = newPutRequest l \<lparr>Key = key l, Value = val l, Identity = identity l\<rparr> rid (etag c)"
    by (simp add: putLoop_puts)
  with c show ?thesis by (simp add: newPutRequest_precondition)
qed

lemma writeLock_put_gets: "gets (fst (writeLock_put l snap env)) = []"
  using writeLock_put_events [of l snap env] by (auto simp: putLoop_gets)

lemma writeLock_put_bound:
  "length (puts (fst (writeLock_put l snap env))) \<le> LockWriteRetriesOnFailures"
proof -
  have "length (puts (fst (putLoop (put_replies env) req 1 [] None))) \<le> LockWriteRetriesOnFailures"
    for req
    using putLoop_bound [of 1 "put_replies env" req "[]" None] by simp
  with writeLock_put_events [of l snap env] show ?thesis by auto
qed

lemma writeLock_put_first:
  "put_uuid env = Some rid \<Longrightarrow>
   \<exists>evs. fst (writeLock_put l (Some c) env) =
     EvPut (newPutRequest l \<lparr>Key = key l, Value = val l, Identity = identity l\<rparr> rid (etag c)) # evs"
proof -
  assume rid: "put_uuid env = Some rid"
  let ?req = "newPutRequest l \<lparr>Key = key l, Value = val l, Identity = identity l\<rparr> rid (etag c)"
  have eq: "fst (writeLock_put l (Some c) env) = fst (putLoop (put_replies env) ?req 1 [] None)"
    using rid by (simp add: writeLock_put_def Let_def split: prod.splits option.splits)
  have le: "1 \<le> LockWriteRetriesOnFailures" by (simp add: LockWriteRetriesOnFailures_def)
  show ?thesis
  proof (cases "is5xx (put_replies env 1)")
    case False
    from putLoop_terminal [of 1 "put_replies env" ?req "[]" None, OF le False] eq
    show ?thesis by simp
  next
    case True
    from putLoop_retry [of 1 "put_replies env" ?req "[]" None, OF le True] eq show ?thesis by auto
  qed
qed

lemma writeLock_put_no_uuid:
  "put_uuid env = None \<Longrightarrow> fst (writeLock_put l snap env) = []"
  by (simp add: writeLock_put_def)

lemma newPutRequest_explicit:
  "newPutRequest l r rid e =
     \<lparr>put_ObjectName = key l, put_Body = r,
      put_IfMatch = (if e = '''' then None else Some e),
      put_IfNoneMatch = (if e = '''' then Some ''*'' else None),
      put_OpcClientRequestId = rid\<rparr>"
  by (simp add: newPutRequest_def)

lemma writeLock_put_trace:
  "\<exists>req. fst (writeLock_put l snap env) =
     concat (map (attempt_events (put_replies env) req)
       [1 ..< Suc (length (puts (fst (writeLock_put l snap env))))])"
proof -
  from writeLock_put_events [of l snap env]
  show ?thesis
  proof
    assume "fst (writeLock_put l snap env) = []"
    then show ?thesis by simp
  next
    assume "\<exists>c rid. snap = Some c \<and> put_uuid env = Some rid \<and>
      fst (writeLock_put l snap env) =
        fst (putLoop (put_replies env)
              (newPutRequest l \<lparr>Key = key l, Value = val l, Identity = identity l\<rparr> rid (etag c))
              1 [] None)"
    then obtain req where
      ev: "fst (writeLock_put l snap env) = fst (putLoop (put_replies env) req 1 [] None)"
      by blast
    from putLoop_trace [of "put_replies env" req 1 "[]" None]
    have "fst (putLoop (put_replies env) req 1 [] None) =
            concat (map (attempt_events (put_replies env) req)
              [1 ..< Suc (length (puts (fst (putLoop (put_replies env) req 1 [] None))))])"
      by simp
    then show ?thesis by (simp only: ev) blast
  qed
qed

lemma writeLock_put_terminal:
  assumes "1 \<le> i" and "i \<le> length (puts (fst (writeLock_put l snap env)))"
    and "\<not> is5xx (put_replies env i)"
  shows "length (puts (fst (writeLock_put l snap env))) = i"
proof -
  from writeLock_put_events [of l snap env] assms(1,2) obtain req where
    ev: "fst (writeLock_put l snap env) = fst (putLoop (put_replies env) req 1 [] None)"
    by auto
  from putLoop_terminal_count [of i "put_replies env" req "[]" None] assms
  show ?thesis by (simp add: ev)
qed

lemma writeLock_put_retried:
  assumes "1 \<le> i" and "i \<le> length (puts (fst (writeLock_put l snap env)))"
    and "is5xx (put_replies env i)" and "i < LockWriteRetriesOnFailures"
  shows "i < length (puts (fst (writeLock_put l snap env)))"
proof -
  from writeLock_put_events [of l snap env] assms(1,2) obtain req where
    ev: "fst (writeLock_put l snap env) = fst (putLoop (put_replies env) req 1 [] None)"
    by auto
  from putLoop_retried [of i "put_replies env" req "[]" None] assms
  show ?thesis by (simp add: ev)
qed

lemma writeLock_put_returns:
  "snd (snd (writeLock_put l (Some c) env)) \<noteq> NilDereference"
  by (auto simp: writeLock_put_def Let_def split: option.splits prod.splits)

lemma put_Body_newPutRequest: "put_Body (newPutRequest l r rid e) = r"
  by (simp add: newPutRequest_def)

lemma writeLock_put_acquired:
  assumes "writeLock_put l snap env = (evs, l', Returned (True, None))"
  shows "\<exists>e. put_replies env 1 = PutOK e \<and>
           (\<exists>req. puts evs = [req] \<and>
              put_Body req = \<lparr>Key = key l, Value = val l, Identity = identity l\<rparr>) \<and>
           l' = l\<lparr>lockRecordCache :=
                    Some \<lparr>etag = e, lastUpdate = now_done env,
                          lockRecord = Some \<lparr>Key = key l, Value = val l, Identity = identity l\<rparr>\<rparr>\<rparr>"
proof -
  from assms obtain rid c where rid: "put_uuid env = Some rid" and c: "snap = Some c"
    by (auto simp: writeLock_put_def Let_def split: option.splits)
  let ?req = "newPutRequest l \<lparr>Key = key l, Value = val l, Identity = identity l\<rparr> rid (etag c)"
  obtain pevs e err where p: "putLoop (put_replies env) ?req 1 [] None = (pevs, e, err)"
    by (cases "putLoop (put_replies env) ?req 1 [] None") auto
  from assms rid c p have err: "err = None"
    by (auto simp: writeLock_put_def Let_def split: option.splits)
  from putLoop_success [OF p [unfolded err]]
  have ok: "put_replies env 1 = PutOK e" "pevs = [EvPut ?req]"
    by simp_all
  from assms rid c p err ok show ?thesis
    by (auto simp: writeLock_put_def Let_def put_Body_newPutRequest)
qed

subsection \<open>The cache refresh and the paths of writeLock\<close>

lemma refreshCache_fields:
  "key (refreshCache l cur e now) = key l"
  "val (refreshCache l cur e now) = val l"
  "identity (refreshCache l cur e now) = identity l"
  "ttl (refreshCache l cur e now) = ttl l"
  "held (refreshCache l cur e now) = held l"
  "stopped (refreshCache l cur e now) = stopped l"
  by (simp_all add: refreshCache_def)

lemma refreshCache_overwritten:
  "(refreshCache l cur e now)\<lparr>lockRecordCache := x\<rparr> = l\<lparr>lockRecordCache := x\<rparr>"
  by (simp add: refreshCache_def)

lemma refreshCache_etag:
  "\<exists>c. lockRecordCache (refreshCache l cur e now) = Some c \<and> etag c = e"
  by (auto simp: refreshCache_def split: option.splits)

lemma refreshCache_not_nil: "lockRecordCache (refreshCache l cur e now) \<noteq> None"
  by (simp add: refreshCache_def split: option.splits)

text \<open>
  The entry after the refresh was stored when its entity tag was first read: now, when
  the cache was nil or had another tag, and at the time of the entry it keeps otherwise.
\<close>

lemma refreshCache_lastUpdate:
  "lockRecordCache (refreshCache l cur e now) = Some c \<Longrightarrow>
   lastUpdate c =
     (case lockRecordCache l of
        None \<Rightarrow> now
      | Some c0 \<Rightarrow> if etag c0 \<noteq> e then now else lastUpdate c0)"
  by (auto simp: refreshCache_def split: option.splits if_splits)

lemma primary_cache_not_nil: "\<not> isSecondary l t \<Longrightarrow> lockRecordCache l \<noteq> None"
  by (auto simp: isSecondary_def split: option.splits)

lemma writeLock_primary:
  "\<not> isSecondary l (now_check env) \<Longrightarrow> writeLock l env = writeLock_put l (lockRecordCache l) env"
  by (simp add: writeLock_def)

lemma writeLock_secondary_error:
  "isSecondary l (now_check env) \<Longrightarrow> get l (wl_get env) = (gevs, Inl e) \<Longrightarrow>
   writeLock l env = (gevs, l, Returned (False, Some (Wrapf ''error reading lock record'' e)))"
  by (simp add: writeLock_def)

lemma writeLock_secondary_gate:
  "isSecondary l (now_check env) \<Longrightarrow> get l (wl_get env) = (gevs, Inr (Some r, e)) \<Longrightarrow>
   lockRecordCache (refreshCache l (Some r) e (now_store env)) = Some c \<Longrightarrow>
   time_Sub (now_gate env) (lastUpdate c) < LockCacheMinAcceptableAge \<Longrightarrow>
   writeLock l env = (gevs, refreshCache l (Some r) e (now_store env), Returned (False, None))"
  by (simp add: writeLock_def Let_def)

lemma writeLock_secondary_put:
  "isSecondary l (now_check env) \<Longrightarrow> get l (wl_get env) = (gevs, Inr (cur, e)) \<Longrightarrow>
   lockRecordCache (refreshCache l cur e (now_store env)) = Some c \<Longrightarrow>
   cur = None \<or> \<not> time_Sub (now_gate env) (lastUpdate c) < LockCacheMinAcceptableAge \<Longrightarrow>
   writeLock l env =
     prepend gevs (writeLock_put (refreshCache l cur e (now_store env)) (Some c) env)"
  by (auto simp: writeLock_def Let_def split: option.splits)

text \<open>
  The events of \<^verbatim>\<open>writeLock\<close> are those of the GET, if any, followed by those of
  the second half, if it is reached.
\<close>

lemma writeLock_phases:
  "\<exists>pevs. fst (writeLock l env) =
       (if isSecondary l (now_check env) then fst (get l (wl_get env)) else []) @ pevs \<and>
     (pevs = [] \<or> (\<exists>l' snap. pevs = fst (writeLock_put l' snap env)))"
proof (cases "isSecondary l (now_check env)")
  case False
  then have "fst (writeLock l env) = [] @ fst (writeLock_put l (lockRecordCache l) env)"
    by (simp add: writeLock_primary)
  with False show ?thesis by auto
next
  case True
  obtain gevs g where g: "get l (wl_get env) = (gevs, g)" by (cases "get l (wl_get env)")
  show ?thesis
  proof (cases g)
    case (Inl err)
    with True g have "fst (writeLock l env) = gevs @ []" by (simp add: writeLock_secondary_error)
    with True g show ?thesis by auto
  next
    case (Inr p)
    obtain cur e where p: "p = (cur, e)" by (cases p)
    from refreshCache_etag [of l cur e "now_store env"] obtain c where
      c: "lockRecordCache (refreshCache l cur e (now_store env)) = Some c" by blast
    have g': "get l (wl_get env) = (gevs, Inr (cur, e))" using g Inr p by simp
    show ?thesis
    proof (cases "cur = None \<or> \<not> time_Sub (now_gate env) (lastUpdate c) < LockCacheMinAcceptableAge")
      case False
      then obtain r where r: "cur = Some r" by auto
      from writeLock_secondary_gate [OF True g' [unfolded r] c [unfolded r]] False
      have "fst (writeLock l env) = gevs @ []" by simp
      with True g show ?thesis by auto
    next
      case put: True
      from writeLock_secondary_put [OF True g' c put]
      have "fst (writeLock l env) =
              gevs @ fst (writeLock_put (refreshCache l cur e (now_store env)) (Some c) env)"
        by (simp add: fst_prepend)
      with True g show ?thesis by auto
    qed
  qed
qed

text \<open>The loop of the source makes \<^verbatim>\<open>LockWriteRetriesOnFailures\<close> attempts at most.\<close>

lemma writeLock_bound:
  "length (puts (fst (writeLock l env))) \<le> LockWriteRetriesOnFailures"
proof -
  let ?g = "if isSecondary l (now_check env) then fst (get l (wl_get env)) else []"
  from writeLock_phases [of l env] obtain pevs where
    ev: "fst (writeLock l env) = ?g @ pevs" and
    pevs: "pevs = [] \<or> (\<exists>l' snap. pevs = fst (writeLock_put l' snap env))"
    by blast
  have pg: "puts ?g = []" by (simp add: puts_get)
  from pevs have "length (puts pevs) \<le> LockWriteRetriesOnFailures"
    using writeLock_put_bound by auto
  with ev pg show ?thesis by (simp add: puts_append)
qed

lemma writeLock_acquired:
  assumes "writeLock l env = (evs, l', Returned (True, None))"
  shows "\<exists>e. put_replies env 1 = PutOK e \<and>
           (\<exists>req. puts evs = [req] \<and>
              put_Body req = \<lparr>Key = key l, Value = val l, Identity = identity l\<rparr>) \<and>
           l' = l\<lparr>lockRecordCache :=
                    Some \<lparr>etag = e, lastUpdate = now_done env,
                          lockRecord = Some \<lparr>Key = key l, Value = val l, Identity = identity l\<rparr>\<rparr>\<rparr>"
proof (cases "isSecondary l (now_check env)")
  case False
  with assms have "writeLock_put l (lockRecordCache l) env = (evs, l', Returned (True, None))"
    by (simp add: writeLock_primary)
  from writeLock_put_acquired [OF this] show ?thesis .
next
  case True
  obtain gevs g where g: "get l (wl_get env) = (gevs, g)" by (cases "get l (wl_get env)")
  have pg: "puts gevs = []" using puts_get [of l "wl_get env"] g by simp
  show ?thesis
  proof (cases g)
    case (Inl err)
    with True g assms show ?thesis by (simp add: writeLock_secondary_error)
  next
    case (Inr p)
    obtain cur e where p: "p = (cur, e)" by (cases p)
    from refreshCache_etag [of l cur e "now_store env"] obtain c where
      c: "lockRecordCache (refreshCache l cur e (now_store env)) = Some c" by blast
    have g': "get l (wl_get env) = (gevs, Inr (cur, e))" using g Inr p by simp
    show ?thesis
    proof (cases "cur = None \<or> \<not> time_Sub (now_gate env) (lastUpdate c) < LockCacheMinAcceptableAge")
      case False
      then obtain r where r: "cur = Some r" by auto
      from writeLock_secondary_gate [OF True g' [unfolded r] c [unfolded r]] False assms
      show ?thesis by simp
    next
      case put: True
      let ?l = "refreshCache l cur e (now_store env)"
      from writeLock_secondary_put [OF True g' c put] assms
      have "prepend gevs (writeLock_put ?l (Some c) env) = (evs, l', Returned (True, None))"
        by simp
      then obtain pevs where w: "writeLock_put ?l (Some c) env = (pevs, l', Returned (True, None))"
        and evs: "evs = gevs @ pevs"
        unfolding prepend_eq by blast
      from writeLock_put_acquired [OF w] pg evs show ?thesis
        by (simp add: refreshCache_fields refreshCache_overwritten puts_append)
    qed
  qed
qed

subsection \<open>The watch loop\<close>

text \<open>
  The loop gives up at the top of an iteration once the counter has reached
  \<open>watchRetryMax - 1\<close>; a failed GET adds one to the counter, and a GET that returns
  the record of this identity sets it to zero.
\<close>

lemma watchLoop_gives_up:
  "retries \<ge> watchRetryMax l - 1 \<Longrightarrow> watchLoop l retries (s # ss) = Some []"
  by simp

lemma watchLoop_failed_get:
  assumes "\<not> ws_stop_closed s" and "\<not> retries \<ge> watchRetryMax l - 1" and "ws_select s = Tick"
    and "ws_cache s = Some c" and "lockRecord c = Some r" and "Identity r = identity l"
    and "\<not> time_Sub (ws_now s) (lastUpdate c) > ttl l"
    and "get l (ws_get s) = (evs, Inl e)"
  shows "watchLoop l retries (s # ss) = map_option ((@) evs) (watchLoop l (retries + 1) ss)"
  using assms by simp

lemma watchLoop_good_get:
  assumes "\<not> ws_stop_closed s" and "\<not> retries \<ge> watchRetryMax l - 1" and "ws_select s = Tick"
    and "ws_cache s = Some c" and "lockRecord c = Some r" and "Identity r = identity l"
    and "\<not> time_Sub (ws_now s) (lastUpdate c) > ttl l"
    and "get l (ws_get s) = (evs, Inr (Some r', e))" and "Identity r' = identity l"
  shows "watchLoop l retries (s # ss) = map_option ((@) evs) (watchLoop l 0 ss)"
  using assms by simp

subsection \<open>Unlock\<close>

lemma Unlock_not_held: "\<not> held l \<Longrightarrow> Unlock l env = ([], l, None)"
  by (simp add: Unlock_def)

lemma Unlock_held:
  assumes "held l"
  shows "\<exists>r. Unlock l env =
           ((if stopped l then [] else [EvCloseStopCh]) @ fst (get l (ul_get env)) @
              map EvDelete (expected_delete l env),
            l\<lparr>stopped := True, held := False\<rparr>, r)"
proof -
  have k: "get (l\<lparr>stopped := True, held := False\<rparr>) (ul_get env) = get l (ul_get env)"
    by (rule get_key) simp
  obtain gevs g where g: "get l (ul_get env) = (gevs, g)" by (cases "get l (ul_get env)")
  show ?thesis
    using assms
    by (cases g)
       (auto simp: Unlock_def Let_def k g expected_delete_def
             split: option.splits DeleteObjectReply.splits)
qed

lemma expected_delete_le: "length (expected_delete l env) \<le> 1"
  by (auto simp: expected_delete_def split: sum.splits option.splits prod.splits)

lemma Unlock_deletes:
  "held l \<Longrightarrow> deletes (fst (Unlock l env)) = expected_delete l env"
proof -
  assume h: "held l"
  from Unlock_held [OF h, of env] obtain r where
    u: "Unlock l env =
           ((if stopped l then [] else [EvCloseStopCh]) @ fst (get l (ul_get env)) @
              map EvDelete (expected_delete l env),
            l\<lparr>stopped := True, held := False\<rparr>, r)" by blast
  show ?thesis
    by (simp only: u fst_conv deletes_append deletes_closing deletes_get deletes_map append_Nil)
qed

subsection \<open>The example runs\<close>

lemma cold_acquisition:
  "writeLock lockA env_absent =
     ([EvGet ''core/lock'', EvPut requestA_create],
      lockA\<lparr>lockRecordCache := Some cacheA\<rparr>, Returned (True, None))"
  by (simp add: model_defs inputs_defs consts_defs)

lemma gated_attempt:
  "writeLock lockA env_incumbent =
     ([EvGet ''core/lock''],
      lockA\<lparr>lockRecordCache :=
              Some \<lparr>etag = ''e5'', lastUpdate = 6 * Second, lockRecord = Some recordB\<rparr>\<rparr>,
      Returned (False, None))"
  by (simp add: model_defs inputs_defs consts_defs)

lemma renewal:
  "writeLock (lockA\<lparr>lockRecordCache := Some cacheA\<rparr>) env_renew =
     ([EvPut requestA],
      lockA\<lparr>lockRecordCache :=
              Some \<lparr>etag = ''e2'', lastUpdate = 11 * Second, lockRecord = Some recordA\<rparr>\<rparr>,
      Returned (True, None))"
  by (simp add: model_defs inputs_defs consts_defs)

lemma renewal_transport_error:
  "writeLock leaderA env_transport =
     ([EvPut requestA], leaderA,
      Returned (False, Some (Wrapf ''write lock'' (PutObjectError None))))"
  by (simp add: model_defs inputs_defs consts_defs)

text \<open>
  A renewal whose third PUT succeeds after two answers 503 still returns the error of
  the first attempt, and leaves the cache as it was.
\<close>

lemma renewal_flapping:
  "writeLock leaderA env_flapping =
     ([EvPut requestA, EvSleep (100 * Millisecond),
       EvPut requestA, EvSleep (200 * Millisecond),
       EvPut requestA], leaderA,
      Returned (False, Some (Wrapf ''write lock'' (PutObjectError (Some 503)))))"
  by (simp add: model_defs inputs_defs consts_defs signed_divide_int_def)

lemma unlock_twice:
  "Unlock leaderA env_unlock =
     ([EvCloseStopCh, EvGet ''core/lock'',
       EvDelete \<lparr>del_ObjectName = ''core/lock'', del_IfMatch = ''e2'',
                 del_OpcClientRequestId = ''u6''\<rparr>],
      leaderA\<lparr>stopped := True, held := False\<rparr>, None)"
  "Unlock (leaderA\<lparr>stopped := True, held := False\<rparr>) env_unlock =
     ([], leaderA\<lparr>stopped := True, held := False\<rparr>, None)"
  by (simp_all add: Unlock_def get_def Let_def inputs_defs consts_defs)

lemma unlock_taken:
  "Unlock leaderA env_unlock_taken =
     ([EvCloseStopCh, EvGet ''core/lock''], leaderA\<lparr>stopped := True, held := False\<rparr>, None)"
  by (simp add: Unlock_def get_def Let_def inputs_defs consts_defs)

subsection \<open>The two contenders\<close>

lemmas store_defs = store_get_def store_put_def precondition_holds_def store_etag_def
  StatusPreconditionFailed_def store0_def store1_def store2_def replies_from_def

lemmas run_defs = lockB_def putA_def putB_def envA_paused_def envB_at_def ticksB_def
  leaderA_late_def leaderB_def

lemma store1_eq: "store1 = \<lparr>object = Some (recordA, ''v''), mutations = 1\<rparr>"
  by (simp add: store_defs run_defs inputs_defs)

lemma store2_eq: "store2 = \<lparr>object = Some (recordB, ''vi''), mutations = 2\<rparr>"
  by (simp add: store1_eq store2_def store_put_def precondition_holds_def store_etag_def
        run_defs inputs_defs)

lemma run_A:
  "Lock_Lock lockA [AttemptTick envA_paused] =
     Some ([EvGet ''core/lock'', EvPut putA, EvMakeStopCh, EvGoRenewLock, EvGoWatchLock],
           leaderA_late, Returned (Inr True))"
  by (simp add: Lock_Lock_def model_defs store_defs run_defs inputs_defs consts_defs)

lemma run_B:
  "Lock_Lock lockB ticksB =
     Some ([EvGet ''core/lock'', EvGet ''core/lock'', EvGet ''core/lock'', EvGet ''core/lock'',
            EvGet ''core/lock'', EvGet ''core/lock'', EvGet ''core/lock'', EvGet ''core/lock'',
            EvGet ''core/lock'', EvGet ''core/lock'', EvPut putB,
            EvMakeStopCh, EvGoRenewLock, EvGoWatchLock],
           leaderB, Returned (Inr True))"
  by (simp add: Lock_Lock_def model_defs store1_eq store_get_def store_put_def
        precondition_holds_def store_etag_def StatusPreconditionFailed_def run_defs inputs_defs
        consts_defs)

text \<open>At second 61 the test of lines 437-439 takes both for the primary.\<close>

lemma leaders_not_secondary:
  "\<not> isSecondary leaderA_late (61 * Second) \<and> \<not> isSecondary leaderB (61 * Second)"
  by (simp add: isSecondary_def time_Sub_def run_defs inputs_defs consts_defs)

section \<open>The claims\<close>

subsection \<open>C1: two leaders at one instant\<close>

text \<open>
  C1 says that no two instances on one key are held with a fresh cache of their own at
  the same instant, whatever the order of the store's replies; the comment at the head
  of the source says the same (no two primaries at any given point in time). The code
  stamps the cache with the clock read after the PUT has returned (line 544), so the
  lease that an instance believes in starts when it reads the clock, not when the store
  applied its PUT. On the run of the two contenders every reply is the store's: the
  PUT of A is applied at second 5 and A stamps its cache at second 60; B reads A's
  record from second 7 on, waits the 45 seconds of the gate, and its PUT with
  \<^verbatim>\<open>IfMatch\<close> is applied at second 52. At second 61 both are held, and each has a
  cache that holds its own record and is not older than the TTL (by the test of lines
  437-439 neither is a secondary: lemma \<open>leaders_not_secondary\<close>).
\<close>

theorem two_leaders_at_once:
  "Lock_Lock lockA [AttemptTick envA_paused] =
     Some ([EvGet ''core/lock'', EvPut putA, EvMakeStopCh, EvGoRenewLock, EvGoWatchLock],
           leaderA_late, Returned (Inr True)) \<and>
   replies_from store0 putA envA_paused \<and>
   store1 = snd (store_put store0 putA) \<and>
   Lock_Lock lockB ticksB =
     Some ([EvGet ''core/lock'', EvGet ''core/lock'', EvGet ''core/lock'', EvGet ''core/lock'',
            EvGet ''core/lock'', EvGet ''core/lock'', EvGet ''core/lock'', EvGet ''core/lock'',
            EvGet ''core/lock'', EvGet ''core/lock'', EvPut putB,
            EvMakeStopCh, EvGoRenewLock, EvGoWatchLock],
           leaderB, Returned (Inr True)) \<and>
   (\<forall>t. replies_from store1 putB (envB_at t)) \<and>
   store2 = snd (store_put store1 putB) \<and>
   object store2 = Some (recordB, ''vi'') \<and>
   now_done envA_paused = 60 * Second \<and>
   LockCacheMinAcceptableAge \<le> time_Sub (now_gate (envB_at (52 * Second))) (7 * Second) \<and>
   held leaderA_late \<and>
   lockRecordCache leaderA_late =
     Some \<lparr>etag = ''v'', lastUpdate = 60 * Second, lockRecord = Some recordA\<rparr> \<and>
   Identity recordA = identity leaderA_late \<and>
   time_Sub (61 * Second) (60 * Second) \<le> ttl leaderA_late \<and>
   held leaderB \<and>
   lockRecordCache leaderB =
     Some \<lparr>etag = ''vi'', lastUpdate = 52 * Second, lockRecord = Some recordB\<rparr> \<and>
   Identity recordB = identity leaderB \<and>
   time_Sub (61 * Second) (52 * Second) \<le> ttl leaderB"
proof -
  have replies: "replies_from store0 putA envA_paused" "\<forall>t. replies_from store1 putB (envB_at t)"
    by (simp_all add: replies_from_def envA_paused_def envB_at_def)
  have stores: "store1 = snd (store_put store0 putA)" "store2 = snd (store_put store1 putB)"
    by (rule store1_def, rule store2_def)
  have taken: "object store2 = Some (recordB, ''vi'')"
    by (simp add: store2_eq)
  have times: "now_done envA_paused = 60 * Second"
    "LockCacheMinAcceptableAge \<le> time_Sub (now_gate (envB_at (52 * Second))) (7 * Second)"
    by (simp_all add: envA_paused_def envB_at_def time_Sub_def consts_defs)
  have leaderA: "held leaderA_late"
    "lockRecordCache leaderA_late =
       Some \<lparr>etag = ''v'', lastUpdate = 60 * Second, lockRecord = Some recordA\<rparr>"
    "Identity recordA = identity leaderA_late"
    "time_Sub (61 * Second) (60 * Second) \<le> ttl leaderA_late"
    by (simp_all add: time_Sub_def run_defs inputs_defs consts_defs)
  have leaderB: "held leaderB"
    "lockRecordCache leaderB =
       Some \<lparr>etag = ''vi'', lastUpdate = 52 * Second, lockRecord = Some recordB\<rparr>"
    "Identity recordB = identity leaderB"
    "time_Sub (61 * Second) (52 * Second) \<le> ttl leaderB"
    by (simp_all add: time_Sub_def run_defs inputs_defs consts_defs)
  from run_A run_B replies stores taken times leaderA leaderB show ?thesis by blast
qed

subsection \<open>C2: the freshness gate\<close>

text \<open>
  C2. In a call of \<^verbatim>\<open>writeLock\<close> that takes the secondary path and whose GET succeeds,
  let \<open>c\<close> be the cache entry after the refresh; its \<open>lastUpdate\<close> is the time at which
  its entity tag was first read. If the GET returned a record and the entry is younger
  than \<^verbatim>\<open>LockCacheMinAcceptableAge\<close>, the call returns \<open>(false, nil)\<close> and its only
  event is the GET: no PUT is sent. If the GET returned no record, the gate is skipped
  whatever the age: when a request id can be made, a PUT is sent, and every PUT carries
  \<^verbatim>\<open>IfNoneMatch: *\<close>.
\<close>

theorem freshness_gate:
  assumes sec: "isSecondary l (now_check env)"
    and g: "get l (wl_get env) = (gevs, Inr (cur, e))"
    and c: "lockRecordCache (refreshCache l cur e (now_store env)) = Some c"
  shows "lastUpdate c =
           (case lockRecordCache l of
              None \<Rightarrow> now_store env
            | Some c0 \<Rightarrow> if etag c0 \<noteq> e then now_store env else lastUpdate c0) \<and>
         (cur \<noteq> None \<and> time_Sub (now_gate env) (lastUpdate c) < LockCacheMinAcceptableAge \<longrightarrow>
            snd (snd (writeLock l env)) = Returned (False, None) \<and>
            fst (writeLock l env) = gevs \<and> puts (fst (writeLock l env)) = []) \<and>
         (cur = None \<and> put_uuid env \<noteq> None \<longrightarrow>
            puts (fst (writeLock l env)) \<noteq> [] \<and>
            (\<forall>req \<in> set (puts (fst (writeLock l env))). put_IfNoneMatch req = Some ''*''))"
proof (intro conjI impI)
  show "lastUpdate c =
           (case lockRecordCache l of
              None \<Rightarrow> now_store env
            | Some c0 \<Rightarrow> if etag c0 \<noteq> e then now_store env else lastUpdate c0)"
    by (rule refreshCache_lastUpdate [OF c])
next
  assume a: "cur \<noteq> None \<and> time_Sub (now_gate env) (lastUpdate c) < LockCacheMinAcceptableAge"
  then obtain r where r: "cur = Some r" by auto
  from writeLock_secondary_gate [OF sec g [unfolded r] c [unfolded r]] a
  have w: "writeLock l env = (gevs, refreshCache l (Some r) e (now_store env), Returned (False, None))"
    by simp
  show "snd (snd (writeLock l env)) = Returned (False, None)" by (simp add: w)
  show "fst (writeLock l env) = gevs" by (simp add: w)
  from puts_get [of l "wl_get env"] g show "puts (fst (writeLock l env)) = []" by (simp add: w)
next
  assume a: "cur = None \<and> put_uuid env \<noteq> None"
  then obtain rid where rid: "put_uuid env = Some rid" by auto
  from writeLock_secondary_put [OF sec g c] a
  have w: "writeLock l env =
     prepend gevs (writeLock_put (refreshCache l cur e (now_store env)) (Some c) env)" by simp
  from writeLock_put_first [OF rid, of "refreshCache l cur e (now_store env)" c]
  obtain pevs rq where "fst (writeLock_put (refreshCache l cur e (now_store env)) (Some c) env) =
      EvPut rq # pevs" by blast
  with w show "puts (fst (writeLock l env)) \<noteq> []"
    by (simp add: fst_prepend puts_append)
  have e: "e = ''''" using g a get_absent_etag by blast
  from refreshCache_etag [of l cur e "now_store env"] c e have ce: "etag c = ''''" by simp
  show "\<forall>req \<in> set (puts (fst (writeLock l env))). put_IfNoneMatch req = Some ''*''"
  proof
    fix req assume "req \<in> set (puts (fst (writeLock l env)))"
    with w puts_get [of l "wl_get env"] g
    have "req \<in> set (puts (fst (writeLock_put (refreshCache l cur e (now_store env)) (Some c) env)))"
      by (simp add: fst_prepend puts_append)
    from writeLock_put_puts [OF this] ce show "put_IfNoneMatch req = Some ''*''"
      by (simp add: has_precondition_def)
  qed
qed

text \<open>
  C2 on the example runs: A meets B's record, first read one second before the gate, and
  sends nothing; A meets no record and sends its PUT with \<^verbatim>\<open>IfNoneMatch: *\<close>.
\<close>

theorem freshness_gate_witness:
  "isSecondary lockA (now_check env_incumbent) \<and>
   get lockA (wl_get env_incumbent) = ([EvGet ''core/lock''], Inr (Some recordB, ''e5'')) \<and>
   time_Sub (now_gate env_incumbent) (6 * Second) < LockCacheMinAcceptableAge \<and>
   snd (snd (writeLock lockA env_incumbent)) = Returned (False, None) \<and>
   puts (fst (writeLock lockA env_incumbent)) = [] \<and>
   isSecondary lockA (now_check env_absent) \<and>
   get lockA (wl_get env_absent) = ([EvGet ''core/lock''], Inr (None, '''')) \<and>
   put_uuid env_absent = Some ''u2'' \<and>
   puts (fst (writeLock lockA env_absent)) = [requestA_create] \<and>
   put_IfNoneMatch requestA_create = Some ''*''"
proof -
  let ?cB = "\<lparr>etag = ''e5'', lastUpdate = 6 * Second, lockRecord = Some recordB\<rparr>"
  let ?c0 = "\<lparr>etag = '''', lastUpdate = 6 * Second, lockRecord = None\<rparr>"
  have s1: "isSecondary lockA (now_check env_incumbent)"
    by (simp add: isSecondary_def lockA_def)
  have g1: "get lockA (wl_get env_incumbent) = ([EvGet ''core/lock''], Inr (Some recordB, ''e5''))"
    by (simp add: get_def inputs_defs consts_defs)
  have c1: "lockRecordCache (refreshCache lockA (Some recordB) ''e5'' (now_store env_incumbent)) = Some ?cB"
    by (simp add: refreshCache_def inputs_defs)
  have a1: "time_Sub (now_gate env_incumbent) (6 * Second) < LockCacheMinAcceptableAge"
    by (simp add: time_Sub_def inputs_defs consts_defs)
  have s2: "isSecondary lockA (now_check env_absent)"
    by (simp add: isSecondary_def lockA_def)
  have g2: "get lockA (wl_get env_absent) = ([EvGet ''core/lock''], Inr (None, ''''))"
    by (simp add: get_def inputs_defs consts_defs)
  have c2: "lockRecordCache (refreshCache lockA None '''' (now_store env_absent)) = Some ?c0"
    by (simp add: refreshCache_def inputs_defs)
  have u2: "put_uuid env_absent = Some ''u2''"
    by (simp add: env_absent_def)
  have p2: "puts (fst (writeLock lockA env_absent)) = [requestA_create]"
    by (simp add: cold_acquisition)
  from freshness_gate [OF s1 g1 c1] a1
  have r1: "snd (snd (writeLock lockA env_incumbent)) = Returned (False, None) \<and>
            puts (fst (writeLock lockA env_incumbent)) = []"
    by simp
  from freshness_gate [OF s2 g2 c2] u2 p2
  have r2: "put_IfNoneMatch requestA_create = Some ''*''"
    by simp
  from s1 g1 a1 r1 s2 g2 u2 p2 r2 show ?thesis by simp
qed

subsection \<open>C3: the retries of the PUT\<close>

text \<open>
  C3 as stated fails: a PUT that gets no HTTP response (a transport error) is not
  retried. The renewal of the leader A whose PUT gets no response sends this one PUT,
  sleeps not at all, and returns the error, though four attempts are allowed.
\<close>

theorem transport_error_not_retried:
  "put_replies env_transport 1 = PutFailed None \<and>
   LockWriteRetriesOnFailures = 4 \<and>
   writeLock leaderA env_transport =
     ([EvPut requestA], leaderA,
      Returned (False, Some (Wrapf ''write lock'' (PutObjectError None))))"
proof -
  have "put_replies env_transport 1 = PutFailed None"
    by (simp add: env_transport_def)
  moreover have "LockWriteRetriesOnFailures = 4"
    by (simp add: LockWriteRetriesOnFailures_def)
  ultimately show ?thesis
    using renewal_transport_error by simp
qed

text \<open>
  C3, amended. The attempts of one call are numbered from 1, and all send the same
  request. After the GET, if there was one, the events of \<^verbatim>\<open>writeLock\<close> are, for each
  attempt made, the PUT, followed by a sleep of 100 ms times the number of the attempt
  when the answer was an error with an HTTP status from 500 to 599. An attempt with
  any other outcome (success, an error without HTTP response, any other status such as
  a 4xx) is the last one. An attempt below \<^verbatim>\<open>LockWriteRetriesOnFailures\<close> that got a
  5xx is retried, and no more than \<^verbatim>\<open>LockWriteRetriesOnFailures\<close> retries are made.
  Whether a 5xx on attempt number \<^verbatim>\<open>LockWriteRetriesOnFailures\<close> is retried is not part
  of the statement.
\<close>

theorem put_retry_policy:
  "(\<exists>req. fst (writeLock l env) =
      (if isSecondary l (now_check env) then fst (get l (wl_get env)) else []) @
      concat (map (\<lambda>i. EvPut req #
                        (if is5xx (put_replies env i) then [EvSleep (100 * int i * Millisecond)]
                         else []))
                [1 ..< Suc (length (puts (fst (writeLock l env))))])) \<and>
   (\<forall>i. 1 \<le> i \<and> i \<le> length (puts (fst (writeLock l env))) \<and> \<not> is5xx (put_replies env i) \<longrightarrow>
      length (puts (fst (writeLock l env))) = i) \<and>
   (\<forall>i. 1 \<le> i \<and> i \<le> length (puts (fst (writeLock l env))) \<and> is5xx (put_replies env i) \<and>
        i < LockWriteRetriesOnFailures \<longrightarrow>
      i < length (puts (fst (writeLock l env)))) \<and>
   length (puts (fst (writeLock l env))) \<le> Suc LockWriteRetriesOnFailures \<and>
   (\<forall>r. is5xx r =
      (\<exists>statusCode. r = PutFailed (Some statusCode) \<and> 500 \<le> statusCode \<and> statusCode \<le> 599))"
proof -
  let ?g = "if isSecondary l (now_check env) then fst (get l (wl_get env)) else []"
  from writeLock_phases [of l env] obtain pevs where
    ev: "fst (writeLock l env) = ?g @ pevs" and
    pevs: "pevs = [] \<or> (\<exists>l' snap. pevs = fst (writeLock_put l' snap env))"
    by blast
  have pg: "puts ?g = []" by (simp add: puts_get)
  have n: "length (puts (fst (writeLock l env))) = length (puts pevs)"
    by (simp add: ev puts_append pg)
  have same: "attempt_events (put_replies env) req =
          (\<lambda>i. EvPut req #
                 (if is5xx (put_replies env i) then [EvSleep (100 * int i * Millisecond)] else []))"
    for req
    by (rule ext) (simp add: attempt_events_def backoff_def)
  have shape: "\<exists>req. pevs =
      concat (map (attempt_events (put_replies env) req) [1 ..< Suc (length (puts pevs))])"
    using pevs
  proof
    assume "pevs = []"
    then show ?thesis by simp
  next
    assume "\<exists>l' snap. pevs = fst (writeLock_put l' snap env)"
    then obtain l' snap where p: "pevs = fst (writeLock_put l' snap env)" by blast
    from writeLock_put_trace [of l' snap env] show ?thesis by (simp only: p)
  qed
  have terminal: "length (puts pevs) = i"
    if "1 \<le> i \<and> i \<le> length (puts pevs) \<and> \<not> is5xx (put_replies env i)" for i
    using pevs that writeLock_put_terminal by auto
  have retried: "i < length (puts pevs)"
    if "1 \<le> i \<and> i \<le> length (puts pevs) \<and> is5xx (put_replies env i) \<and>
        i < LockWriteRetriesOnFailures" for i
    using pevs that writeLock_put_retried by auto
  have bound: "length (puts pevs) \<le> Suc LockWriteRetriesOnFailures"
    using pevs writeLock_put_bound [THEN le_SucI] by auto
  from shape obtain req where
    "pevs = concat (map (attempt_events (put_replies env) req) [1 ..< Suc (length (puts pevs))])"
    by blast
  then have "fst (writeLock l env) = ?g @
      concat (map (\<lambda>i. EvPut req #
                        (if is5xx (put_replies env i) then [EvSleep (100 * int i * Millisecond)]
                         else []))
                [1 ..< Suc (length (puts (fst (writeLock l env))))])"
    by (simp only: n same [symmetric]) (simp add: ev)
  then have c1: "\<exists>req. fst (writeLock l env) = ?g @
      concat (map (\<lambda>i. EvPut req #
                        (if is5xx (put_replies env i) then [EvSleep (100 * int i * Millisecond)]
                         else []))
                [1 ..< Suc (length (puts (fst (writeLock l env))))])"
    by blast
  from c1 terminal retried bound is5xx_iff show ?thesis
    by (simp only: n) blast
qed

text \<open>
  C3 on an example run: in the renewal of A the first two attempts get 503 and are
  retried, the third succeeds and is the last.
\<close>

theorem put_retry_policy_witness:
  "is5xx (put_replies env_flapping 1) \<and> is5xx (put_replies env_flapping 2) \<and>
   \<not> is5xx (put_replies env_flapping 3) \<and>
   2 < LockWriteRetriesOnFailures \<and>
   1 < length (puts (fst (writeLock leaderA env_flapping))) \<and>
   2 < length (puts (fst (writeLock leaderA env_flapping))) \<and>
   length (puts (fst (writeLock leaderA env_flapping))) = 3 \<and>
   fst (writeLock leaderA env_flapping) =
     [EvPut requestA, EvSleep (100 * Millisecond),
      EvPut requestA, EvSleep (200 * Millisecond),
      EvPut requestA]"
proof -
  let ?n = "length (puts (fst (writeLock leaderA env_flapping)))"
  have a: "is5xx (put_replies env_flapping 1)" and b: "is5xx (put_replies env_flapping 2)"
    and c: "\<not> is5xx (put_replies env_flapping 3)"
    by (simp_all add: is5xx_def env_flapping_def env_renew_def signed_divide_int_def)
  have le: "2 < LockWriteRetriesOnFailures"
    by (simp add: LockWriteRetriesOnFailures_def)
  have made: "1 \<le> ?n" "3 \<le> ?n"
    by (simp_all add: renewal_flapping)
  note policy = put_retry_policy [of leaderA env_flapping]
  from policy have
    retried: "\<forall>i. 1 \<le> i \<and> i \<le> ?n \<and> is5xx (put_replies env_flapping i) \<and>
                i < LockWriteRetriesOnFailures \<longrightarrow> i < ?n"
    and terminal: "\<forall>i. 1 \<le> i \<and> i \<le> ?n \<and> \<not> is5xx (put_replies env_flapping i) \<longrightarrow> ?n = i"
    by blast+
  from retried have "1 \<le> (1::nat) \<and> 1 \<le> ?n \<and> is5xx (put_replies env_flapping 1) \<and>
                1 < LockWriteRetriesOnFailures \<longrightarrow> 1 < ?n"
    by (rule spec)
  with made a le have one: "1 < ?n" by simp
  from retried have "1 \<le> (2::nat) \<and> 2 \<le> ?n \<and> is5xx (put_replies env_flapping 2) \<and>
                2 < LockWriteRetriesOnFailures \<longrightarrow> 2 < ?n"
    by (rule spec)
  with one b le have two: "2 < ?n" by simp
  from terminal have "1 \<le> (3::nat) \<and> 3 \<le> ?n \<and> \<not> is5xx (put_replies env_flapping 3) \<longrightarrow> ?n = 3"
    by (rule spec)
  with made c have three: "?n = 3" by simp
  from a b c le one two three show ?thesis by (simp add: renewal_flapping)
qed

subsection \<open>C4: when the watch loop gives up\<close>

text \<open>
  C4 says that the watch loop gives up after \<^verbatim>\<open>watchRetryMax\<close> (four) failed GETs in a
  row. The code gives up one failure earlier, at \<open>retries \<ge> watchRetryMax - 1\<close>: for the
  leader A, whose cache stays fresh and its own, three failed GETs in a row close the
  stop channel, and the fourth GET, which would have succeeded, is never sent. Two
  failures followed by a success leave the loop running (the counter was reset).
\<close>

theorem watch_surrenders_after_three_failures:
  "watchRetryMax leaderA = 4 \<and>
   watchLock leaderA [watch_fail, watch_fail, watch_fail, watch_ok] =
     Some ([EvGet ''core/lock'', EvGet ''core/lock'', EvGet ''core/lock'', EvCloseStopCh],
           leaderA\<lparr>stopped := True\<rparr>) \<and>
   watchLock leaderA [watch_fail, watch_fail, watch_ok, watch_fail, watch_fail, watch_ok] = None"
  by (simp add: watchLock_def get_def time_Sub_def inputs_defs consts_defs)

subsection \<open>C5: one precondition on every PUT\<close>

text \<open>
  C5. Every PUT that \<^verbatim>\<open>writeLock\<close> sends carries exactly one of \<^verbatim>\<open>IfMatch\<close> and
  \<^verbatim>\<open>IfNoneMatch\<close>, chosen by the entity tag of the cache as it stands when the request
  is built: \<^verbatim>\<open>IfNoneMatch: *\<close> for the empty tag, \<^verbatim>\<open>IfMatch\<close> with the tag otherwise.
  On the secondary path that cache is the refreshed one, whose tag is the one the GET
  returned; on the primary path it is the cache of the lock.
\<close>

theorem cas_honesty:
  assumes "req \<in> set (puts (fst (writeLock l env)))"
  shows "(put_IfMatch req = None) \<noteq> (put_IfNoneMatch req = None) \<and>
         (if isSecondary l (now_check env)
          then \<exists>gevs cur e c. get l (wl_get env) = (gevs, Inr (cur, e)) \<and>
                 lockRecordCache (refreshCache l cur e (now_store env)) = Some c \<and>
                 etag c = e \<and> has_precondition (etag c) req
          else \<exists>c. lockRecordCache l = Some c \<and> has_precondition (etag c) req)"
proof (cases "isSecondary l (now_check env)")
  case False
  with assms have "req \<in> set (puts (fst (writeLock_put l (lockRecordCache l) env)))"
    by (simp add: writeLock_primary)
  from writeLock_put_puts [OF this] obtain c where
    c: "lockRecordCache l = Some c" "has_precondition (etag c) req" by blast
  with False has_precondition_exactly_one [OF c(2)] show ?thesis by auto
next
  case True
  obtain gevs g where g: "get l (wl_get env) = (gevs, g)" by (cases "get l (wl_get env)")
  have pg: "puts gevs = []" using puts_get [of l "wl_get env"] g by simp
  show ?thesis
  proof (cases g)
    case (Inl err)
    with assms True g pg show ?thesis by (simp add: writeLock_secondary_error)
  next
    case (Inr p)
    obtain cur e where p: "p = (cur, e)" by (cases p)
    from refreshCache_etag [of l cur e "now_store env"] obtain c where
      c: "lockRecordCache (refreshCache l cur e (now_store env)) = Some c" "etag c = e" by blast
    have g': "get l (wl_get env) = (gevs, Inr (cur, e))" using g Inr p by simp
    show ?thesis
    proof (cases "cur = None \<or> \<not> time_Sub (now_gate env) (lastUpdate c) < LockCacheMinAcceptableAge")
      case False
      then obtain r where r: "cur = Some r" by auto
      from writeLock_secondary_gate [OF True g' [unfolded r] c(1) [unfolded r]] False assms pg
      show ?thesis by simp
    next
      case put: True
      from writeLock_secondary_put [OF True g' c(1) put] assms pg
      have "req \<in> set (puts (fst (writeLock_put (refreshCache l cur e (now_store env)) (Some c) env)))"
        by (simp add: fst_prepend puts_append)
      from writeLock_put_puts [OF this] have h: "has_precondition (etag c) req" by simp
      with True g' c has_precondition_exactly_one [OF h] show ?thesis by auto
    qed
  qed
qed

text \<open>
  C5 on the example runs: the PUT of the renewal carries \<^verbatim>\<open>IfMatch\<close> with the cached
  tag \<open>e1\<close> and no \<^verbatim>\<open>IfNoneMatch\<close>.
\<close>

theorem cas_honesty_witness:
  "requestA \<in> set (puts (fst (writeLock (lockA\<lparr>lockRecordCache := Some cacheA\<rparr>) env_renew))) \<and>
   \<not> isSecondary (lockA\<lparr>lockRecordCache := Some cacheA\<rparr>) (now_check env_renew) \<and>
   (put_IfMatch requestA = None) \<noteq> (put_IfNoneMatch requestA = None) \<and>
   has_precondition ''e1'' requestA"
proof -
  let ?l = "lockA\<lparr>lockRecordCache := Some cacheA\<rparr>"
  have h: "requestA \<in> set (puts (fst (writeLock ?l env_renew)))"
    by (simp add: renewal)
  have p: "\<not> isSecondary ?l (now_check env_renew)"
    by (simp add: isSecondary_def time_Sub_def inputs_defs consts_defs)
  have c: "lockRecordCache ?l = Some cacheA" "etag cacheA = ''e1''"
    by (simp_all add: cacheA_def)
  from cas_honesty [OF h] p c
  have "(put_IfMatch requestA = None) \<noteq> (put_IfNoneMatch requestA = None) \<and>
        has_precondition ''e1'' requestA"
    by simp
  with h p show ?thesis by simp
qed

subsection \<open>C6: what Unlock deletes\<close>

text \<open>
  C6 as stated fails in one point: the \<^verbatim>\<open>IfMatch\<close> of the DELETE is not the cached
  entity tag. \<^verbatim>\<open>Unlock\<close> does not read the cache. The leader A has \<open>e1\<close> in its cache,
  the GET of \<^verbatim>\<open>Unlock\<close> returns A's record under \<open>e2\<close>, and the DELETE carries \<open>e2\<close>.
\<close>

theorem unlock_delete_ignores_cached_etag:
  "held leaderA \<and> lockRecordCache leaderA = Some cacheA \<and> etag cacheA = ''e1'' \<and>
   Unlock leaderA env_unlock =
     ([EvCloseStopCh, EvGet ''core/lock'',
       EvDelete \<lparr>del_ObjectName = ''core/lock'', del_IfMatch = ''e2'',
                 del_OpcClientRequestId = ''u6''\<rparr>],
      leaderA\<lparr>stopped := True, held := False\<rparr>, None)"
  by (simp add: unlock_twice) (simp add: leaderA_def cacheA_def)

text \<open>
  C6, amended. \<^verbatim>\<open>Unlock\<close> on a held lock leaves the lock stopped and not held. Its
  events are, in this order: the close of the stop channel (unless it was closed
  already), the GET, and the DELETEs. A DELETE is sent only when the GET returned a
  record that names this identity (and a request id could be made); it is then the only
  one, for this key, and its \<^verbatim>\<open>IfMatch\<close> is the entity tag that this GET returned. When
  the GET failed, found nothing, or returned a record of another identity, no DELETE
  is sent.
\<close>

theorem unlock_release_protocol:
  assumes "held l"
  shows "(case Unlock l env of
            (evs, l', r) \<Rightarrow>
              \<not> held l' \<and> stopped l' \<and>
              evs = (if stopped l then [] else [EvCloseStopCh]) @ fst (get l (ul_get env)) @
                      map EvDelete (deletes evs) \<and>
              deletes evs =
                (case snd (get l (ul_get env)) of
                   Inl e \<Rightarrow> []
                 | Inr (None, e) \<Rightarrow> []
                 | Inr (Some r, e) \<Rightarrow>
                     (if Identity r = identity l then
                        (case del_uuid env of
                           None \<Rightarrow> []
                         | Some rid \<Rightarrow>
                             [\<lparr>del_ObjectName = key l, del_IfMatch = e,
                               del_OpcClientRequestId = rid\<rparr>])
                      else [])))"
proof -
  from Unlock_held [OF assms, of env] obtain r where
    u: "Unlock l env =
           ((if stopped l then [] else [EvCloseStopCh]) @ fst (get l (ul_get env)) @
              map EvDelete (expected_delete l env),
            l\<lparr>stopped := True, held := False\<rparr>, r)" by blast
  have d: "deletes (fst (Unlock l env)) = expected_delete l env"
    by (rule Unlock_deletes [OF assms])
  from u d show ?thesis
    by (simp add: expected_delete_def)
qed

text \<open>
  C6 on an example run: B has taken the lock, and the \<^verbatim>\<open>Unlock\<close> of A closes its
  channel, reads, and deletes nothing.
\<close>

theorem unlock_release_protocol_witness:
  "held leaderA \<and>
   get leaderA (ul_get env_unlock_taken) = ([EvGet ''core/lock''], Inr (Some recordB, ''e7'')) \<and>
   Identity recordB \<noteq> identity leaderA \<and>
   fst (Unlock leaderA env_unlock_taken) = [EvCloseStopCh, EvGet ''core/lock''] \<and>
   deletes (fst (Unlock leaderA env_unlock_taken)) = []"
proof -
  have h: "held leaderA" by (simp add: leaderA_def)
  have g: "get leaderA (ul_get env_unlock_taken) = ([EvGet ''core/lock''], Inr (Some recordB, ''e7''))"
    by (simp add: get_def inputs_defs)
  have i: "Identity recordB \<noteq> identity leaderA"
    by (simp add: inputs_defs)
  have s: "\<not> stopped leaderA" by (simp add: leaderA_def)
  from unlock_release_protocol [OF h, of env_unlock_taken] g i s
  have "deletes (fst (Unlock leaderA env_unlock_taken)) = [] \<and>
        fst (Unlock leaderA env_unlock_taken) = [EvCloseStopCh, EvGet ''core/lock'']"
    by (auto split: prod.splits)
  with h g i show ?thesis by simp
qed

subsection \<open>C7: Unlock twice\<close>

text \<open>
  C7. \<^verbatim>\<open>Unlock\<close> on a lock that is not held returns nil, changes nothing and sends
  nothing. After any call of \<^verbatim>\<open>Unlock\<close>, a second call returns nil and has no event,
  and the two calls together send at most one DELETE.
\<close>

theorem unlock_idempotent:
  "(\<not> held l \<longrightarrow> Unlock l env = ([], l, None)) \<and>
   (case Unlock l env1 of
      (evs1, l1, r1) \<Rightarrow>
        (case Unlock l1 env2 of
           (evs2, l2, r2) \<Rightarrow>
             r2 = None \<and> evs2 = [] \<and> l2 = l1 \<and> length (deletes (evs1 @ evs2)) \<le> 1))"
proof (intro conjI impI)
  assume "\<not> held l" then show "Unlock l env = ([], l, None)" by (rule Unlock_not_held)
next
  obtain evs1 l1 r1 where u1: "Unlock l env1 = (evs1, l1, r1)" by (cases "Unlock l env1")
  have nh: "\<not> held l1"
  proof (cases "held l")
    case False
    with u1 show ?thesis by (simp add: Unlock_not_held)
  next
    case True
    from Unlock_held [OF True, of env1] u1 show ?thesis by auto
  qed
  have d1: "length (deletes evs1) \<le> 1"
  proof (cases "held l")
    case False
    with u1 show ?thesis by (simp add: Unlock_not_held)
  next
    case True
    from Unlock_deletes [OF True, of env1] u1 expected_delete_le [of l env1] show ?thesis by simp
  qed
  from nh d1 show "case Unlock l env1 of
      (evs1, l1, r1) \<Rightarrow>
        (case Unlock l1 env2 of
           (evs2, l2, r2) \<Rightarrow>
             r2 = None \<and> evs2 = [] \<and> l2 = l1 \<and> length (deletes (evs1 @ evs2)) \<le> 1)"
    by (simp add: u1 Unlock_not_held)
qed

text \<open>
  C7 on the example runs: the new lock of A is not held and its \<^verbatim>\<open>Unlock\<close> does
  nothing; the leader A unlocks twice, and the second call does nothing.
\<close>

theorem unlock_idempotent_witness:
  "\<not> held lockA \<and> Unlock lockA env_unlock = ([], lockA, None) \<and>
   length (deletes (fst (Unlock leaderA env_unlock))) = 1 \<and>
   Unlock (fst (snd (Unlock leaderA env_unlock))) env_unlock =
     ([], leaderA\<lparr>stopped := True, held := False\<rparr>, None)"
proof -
  have nh: "\<not> held lockA" by (simp add: lockA_def)
  from unlock_idempotent [of lockA env_unlock env_unlock env_unlock] nh
  have a: "Unlock lockA env_unlock = ([], lockA, None)" by blast
  from unlock_idempotent [of leaderA env_unlock env_unlock env_unlock]
  have b: "Unlock (fst (snd (Unlock leaderA env_unlock))) env_unlock =
     ([], leaderA\<lparr>stopped := True, held := False\<rparr>, None)"
    by (simp add: unlock_twice)
  have c: "length (deletes (fst (Unlock leaderA env_unlock))) = 1"
    by (simp add: unlock_twice)
  from nh a b c show ?thesis by simp
qed

subsection \<open>C8: the tunables\<close>

text \<open>
  C8 as stated fails: nothing checks the tunables. \<^verbatim>\<open>LockWith\<close> makes the lock of A
  with the constants; with its TTL then set to two seconds, below the renew interval of
  three, \<^verbatim>\<open>Lock\<close> acquires the lock as it would otherwise and starts the two loops.
\<close>

theorem violating_tunables_not_refused:
  "LockWith ''core/lock'' ''https://a:8200'' (Some ''id-a'') = Inr lockA \<and>
   lock_short_ttl = lockA\<lparr>ttl := 2 * Second\<rparr> \<and>
   \<not> (LockCacheMinAcceptableAge > ttl lock_short_ttl \<and>
      ttl lock_short_ttl > renewInterval lock_short_ttl) \<and>
   Lock_Lock lock_short_ttl [AttemptTick env_absent] =
     Some ([EvGet ''core/lock'', EvPut requestA_create, EvMakeStopCh, EvGoRenewLock,
            EvGoWatchLock],
           lock_short_ttl\<lparr>lockRecordCache := Some cacheA, held := True, stopped := False\<rparr>,
           Returned (Inr True))"
  by (simp add: Lock_Lock_def LockWith_def model_defs inputs_defs consts_defs)

text \<open>
  C8, amended. \<^verbatim>\<open>LockWith\<close> fails only when no UUID can be made. The lock it makes has
  the constants as its TTL and its renew interval, and these satisfy
  \<open>LockCacheMinAcceptableAge > ttl > renewInterval\<close>. No settings are passed to it, and
  none are checked.
\<close>

theorem lockwith_defaults:
  "(case LockWith k v uuid of
      Inl e \<Rightarrow> uuid = None \<and> e = Wrapf ''Lock with'' UUIDError
    | Inr l \<Rightarrow>
        uuid = Some (identity l) \<and>
        ttl l = LockTTL \<and> renewInterval l = LockRenewInterval \<and>
        LockCacheMinAcceptableAge > ttl l \<and> ttl l > renewInterval l)"
  by (simp add: LockWith_def consts_defs split: option.splits)

text \<open>C8 on the lock of A.\<close>

theorem lockwith_defaults_witness:
  "LockWith ''core/lock'' ''https://a:8200'' (Some ''id-a'') = Inr lockA \<and>
   LockCacheMinAcceptableAge > ttl lockA \<and> ttl lockA > renewInterval lockA"
proof -
  have l: "LockWith ''core/lock'' ''https://a:8200'' (Some ''id-a'') = Inr lockA"
    by (simp add: LockWith_def lockA_def)
  from lockwith_defaults [where k = "''core/lock''" and v = "''https://a:8200''"
      and uuid = "Some ''id-a''"] l
  show ?thesis by simp
qed

subsection \<open>C9: the cache after a successful writeLock\<close>

text \<open>
  C9. When \<^verbatim>\<open>writeLock\<close> returns \<open>(true, nil)\<close>, it sent one PUT, whose body is
  the record made of the key, the value and the identity of the lock, and that PUT
  succeeded with some entity tag \<open>e\<close>; the cache of the lock holds \<open>e\<close>, the time of the
  store, and that record. So the cache is the lock's own, and a next call made while it
  is not older than the TTL is not a secondary's and sends no GET. When a request id
  can be made, the first event of that call is the PUT of the same record with the
  precondition on \<open>e\<close>: \<^verbatim>\<open>IfMatch\<close> with \<open>e\<close> and no \<^verbatim>\<open>IfNoneMatch\<close>. (Were \<open>e\<close> the empty
  string, which is what the code keeps for an absent object, the precondition would be
  \<^verbatim>\<open>IfNoneMatch: *\<close>.) When no request id can be made, the call sends nothing.
\<close>

theorem self_owned_cache_after_success:
  assumes "writeLock l env = (evs, l', Returned (True, None))"
  shows "\<exists>e. put_replies env 1 = PutOK e \<and>
           (\<exists>req. puts evs = [req] \<and>
              put_Body req = \<lparr>Key = key l, Value = val l, Identity = identity l\<rparr>) \<and>
           lockRecordCache l' =
             Some \<lparr>etag = e, lastUpdate = now_done env,
                   lockRecord = Some \<lparr>Key = key l, Value = val l, Identity = identity l\<rparr>\<rparr> \<and>
           identity l' = identity l \<and>
           (\<forall>env'. time_Sub (now_check env') (now_done env) \<le> ttl l' \<longrightarrow>
              \<not> isSecondary l' (now_check env') \<and>
              gets (fst (writeLock l' env')) = [] \<and>
              (\<forall>req \<in> set (puts (fst (writeLock l' env'))). has_precondition e req) \<and>
              (put_uuid env' = None \<longrightarrow> fst (writeLock l' env') = []) \<and>
              (\<forall>rid. put_uuid env' = Some rid \<longrightarrow>
                 (\<exists>rest. fst (writeLock l' env') =
                    EvPut \<lparr>put_ObjectName = key l,
                           put_Body = \<lparr>Key = key l, Value = val l, Identity = identity l\<rparr>,
                           put_IfMatch = (if e = '''' then None else Some e),
                           put_IfNoneMatch = (if e = '''' then Some ''*'' else None),
                           put_OpcClientRequestId = rid\<rparr> # rest)))"
proof -
  let ?rec = "\<lparr>Key = key l, Value = val l, Identity = identity l\<rparr>"
  from writeLock_acquired [OF assms] obtain e where
    ok: "put_replies env 1 = PutOK e" and
    body: "\<exists>req. puts evs = [req] \<and> put_Body req = ?rec" and
    l': "l' = l\<lparr>lockRecordCache :=
                Some \<lparr>etag = e, lastUpdate = now_done env, lockRecord = Some ?rec\<rparr>\<rparr>"
    by blast
  let ?c = "\<lparr>etag = e, lastUpdate = now_done env, lockRecord = Some ?rec\<rparr>"
  have cache: "lockRecordCache l' = Some ?c" by (simp add: l')
  have next_call: "\<not> isSecondary l' (now_check env') \<and>
              gets (fst (writeLock l' env')) = [] \<and>
              (\<forall>req \<in> set (puts (fst (writeLock l' env'))). has_precondition e req) \<and>
              (put_uuid env' = None \<longrightarrow> fst (writeLock l' env') = []) \<and>
              (\<forall>rid. put_uuid env' = Some rid \<longrightarrow>
                 (\<exists>rest. fst (writeLock l' env') =
                    EvPut \<lparr>put_ObjectName = key l, put_Body = ?rec,
                           put_IfMatch = (if e = '''' then None else Some e),
                           put_IfNoneMatch = (if e = '''' then Some ''*'' else None),
                           put_OpcClientRequestId = rid\<rparr> # rest))"
    if fresh: "time_Sub (now_check env') (now_done env) \<le> ttl l'" for env'
  proof -
    from fresh have prim: "\<not> isSecondary l' (now_check env')"
      by (simp add: isSecondary_def l')
    then have w: "writeLock l' env' = writeLock_put l' (Some ?c) env'"
      by (simp add: writeLock_primary cache)
    have pre: "has_precondition e req" if "req \<in> set (puts (fst (writeLock l' env')))" for req
    proof -
      from that w have "req \<in> set (puts (fst (writeLock_put l' (Some ?c) env')))" by simp
      from writeLock_put_puts [OF this] show ?thesis by auto
    qed
    have none: "fst (writeLock l' env') = []" if "put_uuid env' = None"
      using that by (simp add: w writeLock_put_no_uuid)
    have sent: "\<exists>rest. fst (writeLock l' env') =
                    EvPut \<lparr>put_ObjectName = key l, put_Body = ?rec,
                           put_IfMatch = (if e = '''' then None else Some e),
                           put_IfNoneMatch = (if e = '''' then Some ''*'' else None),
                           put_OpcClientRequestId = rid\<rparr> # rest"
      if rid: "put_uuid env' = Some rid" for rid
    proof -
      from writeLock_put_first [OF rid, of l' ?c] obtain rest where
        first: "fst (writeLock_put l' (Some ?c) env') =
           EvPut (newPutRequest l' \<lparr>Key = key l', Value = val l', Identity = identity l'\<rparr> rid
                    (etag ?c)) # rest"
        by blast
      have req: "newPutRequest l' \<lparr>Key = key l', Value = val l', Identity = identity l'\<rparr> rid
                    (etag ?c) =
                 \<lparr>put_ObjectName = key l, put_Body = ?rec,
                  put_IfMatch = (if e = '''' then None else Some e),
                  put_IfNoneMatch = (if e = '''' then Some ''*'' else None),
                  put_OpcClientRequestId = rid\<rparr>"
        by (simp add: newPutRequest_def l')
      from first have "fst (writeLock l' env') =
           EvPut (newPutRequest l' \<lparr>Key = key l', Value = val l', Identity = identity l'\<rparr> rid
                    (etag ?c)) # rest"
        by (simp only: w)
      then show ?thesis by (simp only: req) blast
    qed
    from prim w pre none sent show ?thesis by (simp add: writeLock_put_gets)
  qed
  from ok body l' next_call show ?thesis by auto
qed

text \<open>
  C9 on the example runs: A acquires the absent lock with the tag \<open>e1\<close>, and its
  renewal three seconds later sends no GET and one PUT, with \<^verbatim>\<open>IfMatch\<close> \<open>e1\<close>.
\<close>

theorem self_owned_cache_after_success_witness:
  "writeLock lockA env_absent =
     ([EvGet ''core/lock'', EvPut requestA_create],
      lockA\<lparr>lockRecordCache := Some cacheA\<rparr>, Returned (True, None)) \<and>
   put_replies env_absent 1 = PutOK ''e1'' \<and>
   lockRecordCache (lockA\<lparr>lockRecordCache := Some cacheA\<rparr>) =
     Some \<lparr>etag = ''e1'', lastUpdate = now_done env_absent,
           lockRecord = Some \<lparr>Key = key lockA, Value = val lockA, Identity = identity lockA\<rparr>\<rparr> \<and>
   time_Sub (now_check env_renew) (now_done env_absent)
     \<le> ttl (lockA\<lparr>lockRecordCache := Some cacheA\<rparr>) \<and>
   put_uuid env_renew = Some ''u4'' \<and>
   gets (fst (writeLock (lockA\<lparr>lockRecordCache := Some cacheA\<rparr>) env_renew)) = [] \<and>
   fst (writeLock (lockA\<lparr>lockRecordCache := Some cacheA\<rparr>) env_renew) = [EvPut requestA] \<and>
   put_IfMatch requestA = Some ''e1'' \<and> put_IfNoneMatch requestA = None"
proof -
  let ?l = "lockA\<lparr>lockRecordCache := Some cacheA\<rparr>"
  have ok: "put_replies env_absent 1 = PutOK ''e1''" by (simp add: env_absent_def)
  have fresh: "time_Sub (now_check env_renew) (now_done env_absent) \<le> ttl ?l"
    by (simp add: time_Sub_def inputs_defs consts_defs)
  have rid: "put_uuid env_renew = Some ''u4''" by (simp add: env_renew_def)
  from self_owned_cache_after_success [OF cold_acquisition] ok obtain e where
    e: "PutOK ''e1'' = PutOK e" and
    c: "lockRecordCache ?l =
          Some \<lparr>etag = e, lastUpdate = now_done env_absent,
                lockRecord = Some \<lparr>Key = key lockA, Value = val lockA, Identity = identity lockA\<rparr>\<rparr>" and
    n: "\<forall>env'. time_Sub (now_check env') (now_done env_absent) \<le> ttl ?l \<longrightarrow>
              \<not> isSecondary ?l (now_check env') \<and>
              gets (fst (writeLock ?l env')) = [] \<and>
              (\<forall>req \<in> set (puts (fst (writeLock ?l env'))). has_precondition e req) \<and>
              (put_uuid env' = None \<longrightarrow> fst (writeLock ?l env') = []) \<and>
              (\<forall>rid. put_uuid env' = Some rid \<longrightarrow>
                 (\<exists>rest. fst (writeLock ?l env') =
                    EvPut \<lparr>put_ObjectName = key lockA,
                           put_Body = \<lparr>Key = key lockA, Value = val lockA, Identity = identity lockA\<rparr>,
                           put_IfMatch = (if e = '''' then None else Some e),
                           put_IfNoneMatch = (if e = '''' then Some ''*'' else None),
                           put_OpcClientRequestId = rid\<rparr> # rest))"
    by auto
  from e have e1: "e = ''e1''" by simp
  from n fresh have g: "gets (fst (writeLock ?l env_renew)) = []" by blast
  from n fresh rid obtain rest where
    "fst (writeLock ?l env_renew) =
       EvPut \<lparr>put_ObjectName = key lockA,
              put_Body = \<lparr>Key = key lockA, Value = val lockA, Identity = identity lockA\<rparr>,
              put_IfMatch = (if e = '''' then None else Some e),
              put_IfNoneMatch = (if e = '''' then Some ''*'' else None),
              put_OpcClientRequestId = ''u4''\<rparr> # rest"
    by blast
  with e1 have sent: "fst (writeLock ?l env_renew) = [EvPut requestA]"
    by (simp add: renewal)
  have m: "put_IfMatch requestA = Some ''e1''" "put_IfNoneMatch requestA = None"
    by (simp_all add: requestA_def)
  from cold_acquisition ok c e1 fresh rid g sent m show ?thesis by simp
qed

subsection \<open>C10: no nil cache where the request is built\<close>

text \<open>
  C10. No call of \<^verbatim>\<open>writeLock\<close> dereferences a nil cache: the refresh of the secondary
  path always leaves a cache entry, the primary path is taken only with a cache entry,
  and so the local variable is not nil where the request is built.
\<close>

theorem no_nil_cache_at_put:
  "snd (snd (writeLock l env)) \<noteq> NilDereference \<and>
   lockRecordCache (refreshCache l cur e now) \<noteq> None \<and>
   (isSecondary l now \<or> lockRecordCache l \<noteq> None)"
proof (intro conjI)
  show "lockRecordCache (refreshCache l cur e now) \<noteq> None" by (rule refreshCache_not_nil)
  show "isSecondary l now \<or> lockRecordCache l \<noteq> None" using primary_cache_not_nil by blast
  show "snd (snd (writeLock l env)) \<noteq> NilDereference"
  proof (cases "isSecondary l (now_check env)")
    case False
    then obtain c where "lockRecordCache l = Some c" using primary_cache_not_nil by blast
    with False show ?thesis by (simp add: writeLock_primary writeLock_put_returns)
  next
    case True
    obtain gevs g where g: "get l (wl_get env) = (gevs, g)" by (cases "get l (wl_get env)")
    show ?thesis
    proof (cases g)
      case (Inl err)
      with True g show ?thesis by (simp add: writeLock_secondary_error)
    next
      case (Inr p)
      obtain cur' e' where p: "p = (cur', e')" by (cases p)
      from refreshCache_etag [of l cur' e' "now_store env"] obtain c where
        c: "lockRecordCache (refreshCache l cur' e' (now_store env)) = Some c" by blast
      have g': "get l (wl_get env) = (gevs, Inr (cur', e'))" using g Inr p by simp
      show ?thesis
      proof (cases "cur' = None \<or> \<not> time_Sub (now_gate env) (lastUpdate c) < LockCacheMinAcceptableAge")
        case False
        then obtain r where r: "cur' = Some r" by auto
        from writeLock_secondary_gate [OF True g' [unfolded r] c [unfolded r]] False
        show ?thesis by simp
      next
        case put: True
        from writeLock_secondary_put [OF True g' c put]
        show ?thesis by (simp add: snd_snd_prepend writeLock_put_returns)
      qed
    qed
  qed
qed

text \<open>
  C10 on an example run: the new lock of A has a nil cache, takes the secondary path,
  and returns.
\<close>

theorem no_nil_cache_at_put_witness:
  "lockRecordCache lockA = None \<and> isSecondary lockA (now_check env_absent) \<and>
   snd (snd (writeLock lockA env_absent)) = Returned (True, None) \<and>
   lockRecordCache (refreshCache lockA None '''' (now_store env_absent)) =
     Some \<lparr>etag = '''', lastUpdate = 6 * Second, lockRecord = None\<rparr>"
proof -
  have n: "lockRecordCache lockA = None" by (simp add: lockA_def)
  have r: "lockRecordCache (refreshCache lockA None '''' (now_store env_absent)) =
     Some \<lparr>etag = '''', lastUpdate = 6 * Second, lockRecord = None\<rparr>"
    by (simp add: refreshCache_def inputs_defs)
  from no_nil_cache_at_put [of lockA env_absent None "''''" "now_check env_absent"] n
  have s: "isSecondary lockA (now_check env_absent)" by simp
  from n s r show ?thesis by (simp add: cold_acquisition)
qed

end
